theory Spec2Isabelle
  imports Complex_Main "HOL-Library.Word" "HOL-Library.Sublist"
begin

section \<open>Data model (element.go, tree)\<close>

text \<open>
  \<open>NodeID\<close> is Go's \<open>uint32\<close>. Go strings and byte slices are byte sequences, modelled
  as \<open>string\<close> (a list of 8-bit characters).
\<close>

type_synonym NodeID = "32 word"

datatype ProcessingKind = UnknownProcessingKind | Package | NUMANode | Core | Thread

datatype CacheLevel = UnknownCacheLevel | L1 | L2 | L3 | L4 | L5

record Processing =
  Kind :: ProcessingKind
  ID :: "32 word"

record CacheAttributes =
  Size :: "64 word"
  Linesize :: "32 word"
  Associativity :: "32 word"

record Cache =
  Level :: CacheLevel
  LogicalIndex :: "32 word"
  Attributes :: "CacheAttributes option"

text \<open>The two embedded pointers of \<open>Element\<close>; \<open>None\<close> is the nil pointer.\<close>

record Element =
  Processing :: "Processing option"
  Cache :: "Cache option"

record TreeNode =
  Data :: "Element option"
  Children :: "NodeID list"

record Tree =
  Nodes :: "TreeNode list"

section \<open>Outcomes of a call\<close>

text \<open>
  Every \<open>fmt.Errorf\<close> of the sources is a constructor of \<open>error\<close>; a Go \<open>panic\<close>
  (the explicit \<open>panic("UNREACHABLE")\<close>, or the runtime's index check) is a \<open>panic\<close>.
  A call either returns its value with a nil error, returns a non-nil error, or panics.
\<close>

datatype error =
    TreeIsNil
  | TreeIsEmpty
  | InvalidNodeID NodeID
  | RootHasNoParent
  | InvalidElement
  | JSONError
  | FailedUnmarshalElement
  | FailedUnmarshalProcessing
  | FailedUnmarshalProcessingKind error
  | FailedUnmarshalCache
  | FailedUnmarshalCacheLevel error
  | UnknownProcessingKindError string
  | UnknownCacheLevelError string

datatype panic = UNREACHABLE | IndexOutOfRange

datatype 'a result = Return 'a | Error error | Panic panic

section \<open>Tree queries\<close>

text \<open>
  \<open>*Tree\<close> is \<open>Tree option\<close>, \<open>None\<close> the nil receiver. \<open>int(id)\<close> of a \<open>uint32\<close> is
  its unsigned value (Go's \<open>int\<close> has 64 bits on the platforms the package targets), so
  \<open>int(id) >= len(t.Nodes)\<close> is \<open>length (Nodes t) \<le> unat id\<close>.
\<close>

definition Tree_Size :: "Tree option \<Rightarrow> int" where
  "Tree_Size t = (case t of None \<Rightarrow> 0 | Some tr \<Rightarrow> int (length (Nodes tr)))"

definition IsEmpty :: "Tree option \<Rightarrow> bool" where
  "IsEmpty t = (case t of None \<Rightarrow> True | Some tr \<Rightarrow> 0 = length (Nodes tr))"

definition Root :: "Tree option \<Rightarrow> Element option result" where
  "Root t = (case t of
      None \<Rightarrow> Error TreeIsNil
    | Some tr \<Rightarrow>
        if length (Nodes tr) = 0 then Error TreeIsEmpty
        else Return (Data (Nodes tr ! 0)))"

definition Get :: "Tree option \<Rightarrow> NodeID \<Rightarrow> Element option result" where
  "Get t nid = (case t of
      None \<Rightarrow> Error TreeIsNil
    | Some tr \<Rightarrow>
        if length (Nodes tr) \<le> unat nid then Error (InvalidNodeID nid)
        else Return (Data (Nodes tr ! unat nid)))"

definition ImmediateDescendantIDs :: "Tree option \<Rightarrow> NodeID \<Rightarrow> NodeID list result" where
  "ImmediateDescendantIDs t nid = (case t of
      None \<Rightarrow> Error TreeIsNil
    | Some tr \<Rightarrow>
        if length (Nodes tr) \<le> unat nid then Error (InvalidNodeID nid)
        else Return (Children (Nodes tr ! unat nid)))"

text \<open>
  The loop of \<open>ImmediateDescendants\<close>: \<open>t.Nodes[c]\<close> for each child \<open>c\<close> in order,
  appended to \<open>children\<close>; an index out of range panics.
\<close>

fun collect_children :: "TreeNode list \<Rightarrow> NodeID list \<Rightarrow> Element option list
    \<Rightarrow> Element option list result" where
  "collect_children nodes [] children = Return children"
| "collect_children nodes (c # cs) children =
     (if unat c < length nodes
      then collect_children nodes cs (children @ [Data (nodes ! unat c)])
      else Panic IndexOutOfRange)"

definition ImmediateDescendants :: "Tree option \<Rightarrow> NodeID \<Rightarrow> Element option list result" where
  "ImmediateDescendants t nid = (case t of
      None \<Rightarrow> Error TreeIsNil
    | Some tr \<Rightarrow>
        if length (Nodes tr) \<le> unat nid then Error (InvalidNodeID nid)
        else collect_children (Nodes tr) (Children (Nodes tr ! unat nid)) [])"

subsection \<open>Leaves\<close>

text \<open>
  The explicit stack of \<open>LeafDescendantIDs\<close> holds pairs of a NodeID and (a pointer to)
  its node; its top is the last entry. Pushing the children of the popped node reads
  \<open>t.Nodes[c]\<close> for each of them, in the stored order. The \<open>for len(stack) > 0\<close> loop
  has no bound of its own, so its model is a partial function: \<open>None\<close> is a run that
  never leaves the loop.
\<close>

fun push_children :: "TreeNode list \<Rightarrow> (NodeID \<times> TreeNode) list \<Rightarrow> NodeID list
    \<Rightarrow> (NodeID \<times> TreeNode) list result" where
  "push_children nodes stack [] = Return stack"
| "push_children nodes stack (c # cs) =
     (if unat c < length nodes
      then push_children nodes (stack @ [(c, nodes ! unat c)]) cs
      else Panic IndexOutOfRange)"

partial_function (option) leaf_ids_loop ::
    "TreeNode list \<Rightarrow> (NodeID \<times> TreeNode) list \<Rightarrow> NodeID list \<Rightarrow> NodeID list result option" where
  "leaf_ids_loop nodes stack leafIDs =
     (if stack = [] then Some (Return leafIDs)
      else if Children (snd (last stack)) \<noteq> []
      then (case push_children nodes (butlast stack) (Children (snd (last stack))) of
              Return stack' \<Rightarrow> leaf_ids_loop nodes stack' leafIDs
            | Error e \<Rightarrow> Some (Error e)
            | Panic p \<Rightarrow> Some (Panic p))
      else leaf_ids_loop nodes (butlast stack) (leafIDs @ [fst (last stack)]))"

declare leaf_ids_loop.simps [code]

definition LeafDescendantIDs :: "Tree option \<Rightarrow> NodeID \<Rightarrow> NodeID list result option" where
  "LeafDescendantIDs t nid = (case t of
      None \<Rightarrow> Some (Error TreeIsNil)
    | Some tr \<Rightarrow>
        if length (Nodes tr) \<le> unat nid then Some (Error (InvalidNodeID nid))
        else leaf_ids_loop (Nodes tr) [(nid, Nodes tr ! unat nid)] [])"

text \<open>\<open>LeafDescendants\<close> keeps only the nodes on its stack and collects their elements.\<close>

fun push_nodes :: "TreeNode list \<Rightarrow> TreeNode list \<Rightarrow> NodeID list \<Rightarrow> TreeNode list result" where
  "push_nodes nodes stack [] = Return stack"
| "push_nodes nodes stack (c # cs) =
     (if unat c < length nodes
      then push_nodes nodes (stack @ [nodes ! unat c]) cs
      else Panic IndexOutOfRange)"

partial_function (option) leaves_loop ::
    "TreeNode list \<Rightarrow> TreeNode list \<Rightarrow> Element option list \<Rightarrow> Element option list result option" where
  "leaves_loop nodes stack leaves =
     (if stack = [] then Some (Return leaves)
      else if Children (last stack) \<noteq> []
      then (case push_nodes nodes (butlast stack) (Children (last stack)) of
              Return stack' \<Rightarrow> leaves_loop nodes stack' leaves
            | Error e \<Rightarrow> Some (Error e)
            | Panic p \<Rightarrow> Some (Panic p))
      else leaves_loop nodes (butlast stack) (leaves @ [Data (last stack)]))"

declare leaves_loop.simps [code]

definition LeafDescendants :: "Tree option \<Rightarrow> NodeID \<Rightarrow> Element option list result option" where
  "LeafDescendants t nid = (case t of
      None \<Rightarrow> Some (Error TreeIsNil)
    | Some tr \<Rightarrow>
        if length (Nodes tr) \<le> unat nid then Some (Error (InvalidNodeID nid))
        else leaves_loop (Nodes tr) [Nodes tr ! unat nid] [])"

subsection \<open>Parents\<close>

text \<open>
  The scan of \<open>ParentID\<close> and \<open>Parent\<close>: the index of the first node, in storage
  order, whose child list holds \<open>nid\<close>; \<open>k\<close> is the index of the head of the list.
\<close>

fun find_parent :: "TreeNode list \<Rightarrow> nat \<Rightarrow> NodeID \<Rightarrow> nat option" where
  "find_parent [] k nid = None"
| "find_parent (n # ns) k nid =
     (if nid \<in> set (Children n) then Some k else find_parent ns (Suc k) nid)"

text \<open>\<open>NodeID(parentID)\<close> converts the \<open>int\<close> index to \<open>uint32\<close>: \<open>of_nat\<close>, which wraps.\<close>

definition ParentID :: "Tree option \<Rightarrow> NodeID \<Rightarrow> NodeID result" where
  "ParentID t nid = (case t of
      None \<Rightarrow> Error TreeIsNil
    | Some tr \<Rightarrow>
        if length (Nodes tr) \<le> unat nid then Error (InvalidNodeID nid)
        else if nid = 0 then Error RootHasNoParent
        else (case find_parent (Nodes tr) 0 nid of
                Some parentID \<Rightarrow> Return (of_nat parentID)
              | None \<Rightarrow> Panic UNREACHABLE))"

definition Parent :: "Tree option \<Rightarrow> NodeID \<Rightarrow> Element option result" where
  "Parent t nid = (case t of
      None \<Rightarrow> Error TreeIsNil
    | Some tr \<Rightarrow>
        if length (Nodes tr) \<le> unat nid then Error (InvalidNodeID nid)
        else if nid = 0 then Error RootHasNoParent
        else (case find_parent (Nodes tr) 0 nid of
                Some parentID \<Rightarrow> Return (Data (Nodes tr ! parentID))
              | None \<Rightarrow> Panic UNREACHABLE))"

subsection \<open>Ancestors\<close>

text \<open>
  The parent table \<open>allAncestorIDs\<close>: \<open>len(t.Nodes)\<close> zeros, then for each node in
  storage order and each of its children in order, the child's slot is overwritten with
  the node's index. Writing a slot out of range panics.
\<close>

fun set_parent_of :: "NodeID list \<Rightarrow> NodeID \<Rightarrow> NodeID list \<Rightarrow> NodeID list result" where
  "set_parent_of [] parentID allAncestorIDs = Return allAncestorIDs"
| "set_parent_of (c # cs) parentID allAncestorIDs =
     (if unat c < length allAncestorIDs
      then set_parent_of cs parentID (allAncestorIDs[unat c := parentID])
      else Panic IndexOutOfRange)"

fun fill_ancestor_table :: "TreeNode list \<Rightarrow> nat \<Rightarrow> NodeID list \<Rightarrow> NodeID list result" where
  "fill_ancestor_table [] parentID allAncestorIDs = Return allAncestorIDs"
| "fill_ancestor_table (n # ns) parentID allAncestorIDs =
     (case set_parent_of (Children n) (of_nat parentID) allAncestorIDs of
        Return tbl \<Rightarrow> fill_ancestor_table ns (Suc parentID) tbl
      | Error e \<Rightarrow> Error e
      | Panic p \<Rightarrow> Panic p)"

definition build_ancestor_table :: "TreeNode list \<Rightarrow> NodeID list result" where
  "build_ancestor_table nodes = fill_ancestor_table nodes 0 (replicate (length nodes) 0)"

text \<open>
  The walk \<open>for ; id != 0; id = allAncestorIDs[id]\<close>, which appends
  \<open>allAncestorIDs[id]\<close> at each step. It has no bound of its own either.
\<close>

partial_function (option) ancestor_ids_loop ::
    "NodeID list \<Rightarrow> NodeID \<Rightarrow> NodeID list \<Rightarrow> NodeID list result option" where
  "ancestor_ids_loop allAncestorIDs nid ancestorIDs =
     (if nid = 0 then Some (Return ancestorIDs)
      else if unat nid < length allAncestorIDs
      then ancestor_ids_loop allAncestorIDs (allAncestorIDs ! unat nid)
             (ancestorIDs @ [allAncestorIDs ! unat nid])
      else Some (Panic IndexOutOfRange))"

declare ancestor_ids_loop.simps [code]

definition AncestorIDs :: "Tree option \<Rightarrow> NodeID \<Rightarrow> NodeID list result option" where
  "AncestorIDs t nid = (case t of
      None \<Rightarrow> Some (Error TreeIsNil)
    | Some tr \<Rightarrow>
        if length (Nodes tr) \<le> unat nid then Some (Error (InvalidNodeID nid))
        else (case build_ancestor_table (Nodes tr) of
                Return allAncestorIDs \<Rightarrow> ancestor_ids_loop allAncestorIDs nid []
              | Error e \<Rightarrow> Some (Error e)
              | Panic p \<Rightarrow> Some (Panic p)))"

text \<open>
  \<open>Ancestors\<close> appends \<open>t.Nodes[allAncestorIDs[id]].Data\<close> instead; both indexings are
  checked.
\<close>

partial_function (option) ancestors_loop ::
    "TreeNode list \<Rightarrow> NodeID list \<Rightarrow> NodeID \<Rightarrow> Element option list
      \<Rightarrow> Element option list result option" where
  "ancestors_loop nodes allAncestorIDs nid ancestors =
     (if nid = 0 then Some (Return ancestors)
      else if unat nid < length allAncestorIDs
              \<and> unat (allAncestorIDs ! unat nid) < length nodes
      then ancestors_loop nodes allAncestorIDs (allAncestorIDs ! unat nid)
             (ancestors @ [Data (nodes ! unat (allAncestorIDs ! unat nid))])
      else Some (Panic IndexOutOfRange))"

declare ancestors_loop.simps [code]

definition Ancestors :: "Tree option \<Rightarrow> NodeID \<Rightarrow> Element option list result option" where
  "Ancestors t nid = (case t of
      None \<Rightarrow> Some (Error TreeIsNil)
    | Some tr \<Rightarrow>
        if length (Nodes tr) \<le> unat nid then Some (Error (InvalidNodeID nid))
        else (case build_ancestor_table (Nodes tr) of
                Return allAncestorIDs \<Rightarrow> ancestors_loop (Nodes tr) allAncestorIDs nid []
              | Error e \<Rightarrow> Some (Error e)
              | Panic p \<Rightarrow> Some (Panic p)))"


section \<open>JSON text, as encoding/json reads it\<close>

text \<open>
  The element codec calls \<open>json.Unmarshal\<close> into an \<open>interface{}\<close> and \<open>json.Marshal\<close>
  of the standard library. They are not code of this package; the model below follows
  their documented behaviour: RFC 8259 syntax, checked on the whole input before anything
  is decoded; objects become maps (a repeated key keeps its last value), arrays slices,
  strings Go strings with the escapes resolved, and every number a \<open>float64\<close>.

  The concrete syntax tree keeps the raw text of strings and numbers.
\<close>

abbreviation dquote :: char where "dquote \<equiv> CHR 0x22"
abbreviation backslash :: char where "backslash \<equiv> CHR 0x5C"

datatype cst =
    CNull | CTrue | CFalse
  | CNumber string
  | CString string
  | CArray "cst list"
  | CObject "(string \<times> cst) list"

definition is_ws :: "char \<Rightarrow> bool" where
  "is_ws c = (c = CHR '' '' \<or> c = CHR 0x09 \<or> c = CHR 0x0A \<or> c = CHR 0x0D)"

definition skip_ws :: "string \<Rightarrow> string" where
  "skip_ws s = dropWhile is_ws s"

definition is_digit :: "char \<Rightarrow> bool" where
  "is_digit c = (c \<in> set ''0123456789'')"

definition is_hex :: "char \<Rightarrow> bool" where
  "is_hex c = (c \<in> set ''0123456789abcdefABCDEF'')"

fun scan_string :: "string \<Rightarrow> (string \<times> string) option" where
  "scan_string [] = None"
| "scan_string (c # cs) =
     (if c = dquote then Some ([], cs)
      else if c = backslash then
        (case cs of
           [] \<Rightarrow> None
         | e # cs' \<Rightarrow>
             if e = CHR ''u'' then
               (if 4 \<le> length cs' \<and> list_all is_hex (take 4 cs')
                then map_option (\<lambda>(b, r). (c # e # take 4 cs' @ b, r)) (scan_string (drop 4 cs'))
                else None)
             else if e \<in> set [dquote, backslash, CHR ''/'', CHR ''b'', CHR ''f'', CHR ''n'', CHR ''r'', CHR ''t'']
             then map_option (\<lambda>(b, r). (c # e # b, r)) (scan_string cs')
             else None)
      else if (of_char c :: nat) < 32 then None
      else map_option (\<lambda>(b, r). (c # b, r)) (scan_string cs))"

definition scan_frac :: "string \<Rightarrow> (string \<times> string) option" where
  "scan_frac s = (case s of
      [] \<Rightarrow> Some ([], s)
    | c # cs \<Rightarrow>
        if c = CHR ''.'' then
          (if takeWhile is_digit cs = [] then None
           else Some (c # takeWhile is_digit cs, dropWhile is_digit cs))
        else Some ([], s))"

definition scan_sign :: "string \<Rightarrow> string \<times> string" where
  "scan_sign s = (case s of
      [] \<Rightarrow> ([], s)
    | c # cs \<Rightarrow> if c = CHR ''+'' \<or> c = CHR ''-'' then ([c], cs) else ([], s))"

definition scan_exp :: "string \<Rightarrow> (string \<times> string) option" where
  "scan_exp s = (case s of
      [] \<Rightarrow> Some ([], s)
    | c # cs \<Rightarrow>
        if c = CHR ''e'' \<or> c = CHR ''E'' then
          (case scan_sign cs of (sg, r) \<Rightarrow>
             if takeWhile is_digit r = [] then None
             else Some (c # sg @ takeWhile is_digit r, dropWhile is_digit r))
        else Some ([], s))"

definition scan_int :: "string \<Rightarrow> (string \<times> string) option" where
  "scan_int s = (case s of
      [] \<Rightarrow> None
    | c # cs \<Rightarrow>
        if c = CHR ''0'' then Some ([c], cs)
        else if is_digit c then Some (c # takeWhile is_digit cs, dropWhile is_digit cs)
        else None)"

definition scan_number :: "string \<Rightarrow> (string \<times> string) option" where
  "scan_number s =
     (case (case s of [] \<Rightarrow> ([], s) | c # cs \<Rightarrow> if c = CHR ''-'' then ([c], cs) else ([], s)) of
        (sg, s1) \<Rightarrow>
          (case scan_int s1 of
             None \<Rightarrow> None
           | Some (ip, s2) \<Rightarrow>
               (case scan_frac s2 of
                  None \<Rightarrow> None
                | Some (fr, s3) \<Rightarrow>
                    (case scan_exp s3 of
                       None \<Rightarrow> None
                     | Some (ex, s4) \<Rightarrow> Some (sg @ ip @ fr @ ex, s4)))))"

lemma length_skip_ws: "length (skip_ws s) \<le> length s"
  by (simp add: skip_ws_def length_dropWhile_le)

lemma skip_ws_Cons_len: "skip_ws s = c # cs \<Longrightarrow> length cs < length s"
  using length_skip_ws [of s] by simp

lemma scan_string_length: "scan_string s = Some (b, r) \<Longrightarrow> length r < length s"
proof (induction s arbitrary: b r rule: scan_string.induct)
  case 1
  then show ?case by simp
next
  case (2 c cs)
  show ?case
  proof (cases "c = dquote")
    case True
    with "2.prems" show ?thesis by simp
  next
    case nq: False
    show ?thesis
    proof (cases "c = backslash")
      case True
      with nq "2.prems" obtain e cs' where cs: "cs = e # cs'"
        by (cases cs) auto
      show ?thesis
      proof (cases "e = CHR ''u''")
        case u: True
        with True nq cs "2.prems" obtain b' where
          "scan_string (drop 4 cs') = Some (b', r)"
          by (auto split: if_splits)
        from "2.IH"(1) [OF nq True cs u _ this] True nq cs u "2.prems"
        have "length r < length (drop 4 cs')" by (auto split: if_splits)
        with cs show ?thesis by simp
      next
        case nu: False
        with True nq cs "2.prems" obtain b' where
          ok: "e \<in> set [dquote, backslash, CHR ''/'', CHR ''b'', CHR ''f'', CHR ''n'', CHR ''r'', CHR ''t'']"
          and "scan_string cs' = Some (b', r)"
          by (auto split: if_splits)
        from "2.IH"(2) [OF nq True cs nu ok this(2)] cs show ?thesis by simp
      qed
    next
      case nb: False
      with nq "2.prems" obtain b' where ctl: "\<not> (of_char c :: nat) < 32"
        and "scan_string cs = Some (b', r)"
        by (auto split: if_splits)
      from "2.IH"(3) [OF nq nb ctl this(2)] show ?thesis by simp
    qed
  qed
qed

text \<open>
  A value, the elements of an array after \<open>[\<close> and the members of an object after
  \<open>{\<close>, each on input whose leading white space is gone. The two comparisons of lengths
  guard the recursion on the rest of the input; a successful \<open>parse_value\<close> consumes
  at least one character, so they never fire.
\<close>

function parse_value :: "string \<Rightarrow> (cst \<times> string) option"
  and parse_elements :: "string \<Rightarrow> (cst list \<times> string) option"
  and parse_members :: "string \<Rightarrow> ((string \<times> cst) list \<times> string) option" where
  "parse_value s =
     (case s of
        [] \<Rightarrow> None
      | c # cs \<Rightarrow>
          if c = CHR ''{'' then
            (case skip_ws cs of
               [] \<Rightarrow> None
             | d # ds \<Rightarrow>
                 if d = CHR ''}'' then Some (CObject [], ds)
                 else map_option (\<lambda>(ms, r). (CObject ms, r)) (parse_members (skip_ws cs)))
          else if c = CHR ''['' then
            (case skip_ws cs of
               [] \<Rightarrow> None
             | d # ds \<Rightarrow>
                 if d = CHR '']'' then Some (CArray [], ds)
                 else map_option (\<lambda>(vs, r). (CArray vs, r)) (parse_elements (skip_ws cs)))
          else if c = dquote then map_option (\<lambda>(b, r). (CString b, r)) (scan_string cs)
          else if prefix ''true'' s then Some (CTrue, drop 4 s)
          else if prefix ''false'' s then Some (CFalse, drop 5 s)
          else if prefix ''null'' s then Some (CNull, drop 4 s)
          else map_option (\<lambda>(l, r). (CNumber l, r)) (scan_number s))"
| "parse_elements s =
     (case parse_value s of
        None \<Rightarrow> None
      | Some (v, r) \<Rightarrow>
          if length s \<le> length r then None
          else
            (case skip_ws r of
               [] \<Rightarrow> None
             | c # cs \<Rightarrow>
                 if c = CHR '']'' then Some ([v], cs)
                 else if c = CHR '','' then
                   map_option (\<lambda>(vs, r'). (v # vs, r')) (parse_elements (skip_ws cs))
                 else None))"
| "parse_members s =
     (case s of
        [] \<Rightarrow> None
      | q # qs \<Rightarrow>
          if q \<noteq> dquote then None
          else
            (case scan_string qs of
               None \<Rightarrow> None
             | Some (k, r) \<Rightarrow>
                 (case skip_ws r of
                    [] \<Rightarrow> None
                  | d # ds \<Rightarrow>
                      if d \<noteq> CHR '':'' then None
                      else
                        (case parse_value (skip_ws ds) of
                           None \<Rightarrow> None
                         | Some (v, r2) \<Rightarrow>
                             if length (skip_ws ds) \<le> length r2 then None
                             else
                               (case skip_ws r2 of
                                  [] \<Rightarrow> None
                                | c # cs \<Rightarrow>
                                    if c = CHR ''}'' then Some ([(k, v)], cs)
                                    else if c = CHR '','' then
                                      map_option (\<lambda>(ms, r'). ((k, v) # ms, r'))
                                        (parse_members (skip_ws cs))
                                    else None)))))"
  by pat_completeness auto

termination
proof (relation "measure (\<lambda>x. case x of
           Inl s \<Rightarrow> 2 * length s
         | Inr (Inl s) \<Rightarrow> 2 * length s + 1
         | Inr (Inr s) \<Rightarrow> 2 * length s + 1)", goal_cases)
  case 1
  show ?case by simp
next
  case (2 s c cs d ds)
  then show ?case using length_skip_ws [of cs] by simp
next
  case (3 s c cs d ds)
  then show ?case using length_skip_ws [of cs] by simp
next
  case (4 s)
  show ?case by simp
next
  case (5 s x v r c cs)
  then show ?case using skip_ws_Cons_len [of r c cs] length_skip_ws [of cs] by simp
next
  case (6 s q qs x k r d ds)
  then show ?case
    using scan_string_length [of qs k r] skip_ws_Cons_len [of r d ds] length_skip_ws [of ds]
    by simp
next
  case (7 s q qs x k r d ds x2 v r2 c cs)
  then show ?case
    using scan_string_length [of qs k r] skip_ws_Cons_len [of r d ds] length_skip_ws [of ds]
      skip_ws_Cons_len [of r2 c cs] length_skip_ws [of cs]
    by simp
qed

declare parse_value.simps [simp del] parse_elements.simps [simp del] parse_members.simps [simp del]

definition json_parse :: "string \<Rightarrow> cst option" where
  "json_parse s = (case parse_value (skip_ws s) of
      None \<Rightarrow> None
    | Some (v, r) \<Rightarrow> if skip_ws r = [] then Some v else None)"

subsection \<open>Numbers\<close>

text \<open>
  A \<open>float64\<close> is kept as the exact decimal value \<open>m * 10 ^ e\<close> of its literal. The
  rounding of a literal of more than 53 significant bits to the nearest binary64 is not
  modelled; \<open>strconv.ParseFloat\<close> fails on a literal that rounds to infinity, which is
  one of magnitude at least \<open>2 ^ 1024 - 2 ^ 970\<close>.
\<close>

datatype float64 = F64 int int

definition digit_value :: "char \<Rightarrow> int" where
  "digit_value c = of_char c - 48"

definition int_of_digits :: "string \<Rightarrow> int" where
  "int_of_digits ds = foldl (\<lambda>a c. 10 * a + digit_value c) 0 ds"

definition number_value :: "string \<Rightarrow> float64" where
  "number_value lit =
     (let neg = (case lit of [] \<Rightarrow> False | c # _ \<Rightarrow> c = CHR ''-'');
          body = (if neg then tl lit else lit);
          ip = takeWhile is_digit body;
          r1 = dropWhile is_digit body;
          has_frac = (case r1 of [] \<Rightarrow> False | c # _ \<Rightarrow> c = CHR ''.'');
          fr = (if has_frac then takeWhile is_digit (tl r1) else []);
          r2 = (if has_frac then dropWhile is_digit (tl r1) else r1);
          ex = (case r2 of
                  [] \<Rightarrow> 0
                | _ # es \<Rightarrow>
                    (case scan_sign es of (sg, ds) \<Rightarrow>
                       if sg = ''-'' then - int_of_digits ds else int_of_digits ds));
          m = int_of_digits (ip @ fr)
      in F64 (if neg then - m else m) (ex - int (length fr)))"

definition float64_overflow :: "float64 \<Rightarrow> bool" where
  "float64_overflow f = (case f of F64 m e \<Rightarrow>
      if 0 \<le> e then 2 ^ 1024 - 2 ^ 970 \<le> \<bar>m\<bar> * 10 ^ nat e
      else (2 ^ 1024 - 2 ^ 970) * 10 ^ nat (- e) \<le> \<bar>m\<bar>)"

text \<open>
  The conversions \<open>uint32(f)\<close>, \<open>uint64(f)\<close> and \<open>int32(f)\<close> discard the fraction
  (truncation towards zero). Go leaves the result for a value out of the target's range to
  the implementation; the model wraps it around.
\<close>

definition float64_trunc :: "float64 \<Rightarrow> int" where
  "float64_trunc f = (case f of F64 m e \<Rightarrow>
      if 0 \<le> e then m * 10 ^ nat e else sgn m * (\<bar>m\<bar> div 10 ^ nat (- e)))"

definition uint32 :: "float64 \<Rightarrow> 32 word" where
  "uint32 f = word_of_int (float64_trunc f)"

definition uint64 :: "float64 \<Rightarrow> 64 word" where
  "uint64 f = word_of_int (float64_trunc f)"

definition int32 :: "float64 \<Rightarrow> 32 word" where
  "int32 f = word_of_int (float64_trunc f)"

subsection \<open>Strings\<close>

text \<open>
  Resolving the escapes of a string body. \<open>\<^verbatim>\<open>\u\<close>\<close> escapes become UTF-8; a surrogate pair
  is one code point, a lone surrogate U+FFFD. (Go also replaces ill-formed UTF-8 in the
  input by U+FFFD; the model copies bytes from 0x80 on unchanged.)
\<close>

definition hex_digit_value :: "char \<Rightarrow> nat" where
  "hex_digit_value c =
     (if is_digit c then of_char c - 48
      else if c \<in> set ''abcdef'' then of_char c - 87
      else of_char c - 55)"

definition hex_value :: "string \<Rightarrow> nat" where
  "hex_value ds = foldl (\<lambda>a c. 16 * a + hex_digit_value c) 0 ds"

definition utf8 :: "nat \<Rightarrow> string" where
  "utf8 n =
     (if n < 0x80 then [char_of n]
      else if n < 0x800 then [char_of (0xC0 + n div 64), char_of (0x80 + n mod 64)]
      else if n < 0x10000 then
        [char_of (0xE0 + n div 4096), char_of (0x80 + n div 64 mod 64), char_of (0x80 + n mod 64)]
      else
        [char_of (0xF0 + n div 262144), char_of (0x80 + n div 4096 mod 64),
         char_of (0x80 + n div 64 mod 64), char_of (0x80 + n mod 64)])"

definition unescape :: "char \<Rightarrow> char" where
  "unescape e =
     (if e = CHR ''b'' then CHR 0x08
      else if e = CHR ''f'' then CHR 0x0C
      else if e = CHR ''n'' then CHR 0x0A
      else if e = CHR ''r'' then CHR 0x0D
      else if e = CHR ''t'' then CHR 0x09
      else e)"

definition is_u4 :: "string \<Rightarrow> bool" where
  "is_u4 s = (6 \<le> length s \<and> take 2 s = [backslash, CHR ''u''] \<and> list_all is_hex (take 4 (drop 2 s)))"

fun unquote :: "string \<Rightarrow> string" where
  "unquote [] = []"
| "unquote (c # cs) =
     (if c \<noteq> backslash then c # unquote cs
      else
        (case cs of
           [] \<Rightarrow> []
         | e # r \<Rightarrow>
             if e \<noteq> CHR ''u'' then unescape e # unquote r
             else if 0xD800 \<le> hex_value (take 4 r) \<and> hex_value (take 4 r) < 0xDC00
                     \<and> is_u4 (drop 4 r)
                     \<and> 0xDC00 \<le> hex_value (take 4 (drop 6 r))
                     \<and> hex_value (take 4 (drop 6 r)) < 0xE000
             then utf8 (0x10000 + (hex_value (take 4 r) - 0xD800) * 0x400
                          + (hex_value (take 4 (drop 6 r)) - 0xDC00))
                  @ unquote (drop 10 r)
             else if 0xD800 \<le> hex_value (take 4 r) \<and> hex_value (take 4 r) < 0xE000
             then utf8 0xFFFD @ unquote (drop 4 r)
             else utf8 (hex_value (take 4 r)) @ unquote (drop 4 r)))"

subsection \<open>Values\<close>

datatype json =
    JNull
  | JBool bool
  | JNumber float64
  | JString string
  | JArray "json list"
  | JObject "(string \<times> json) list"

fun interp :: "cst \<Rightarrow> json option" where
  "interp CNull = Some JNull"
| "interp CTrue = Some (JBool True)"
| "interp CFalse = Some (JBool False)"
| "interp (CNumber l) =
     (if float64_overflow (number_value l) then None else Some (JNumber (number_value l)))"
| "interp (CString b) = Some (JString (unquote b))"
| "interp (CArray vs) = map_option JArray (those (map interp vs))"
| "interp (CObject ms) =
     map_option JObject
       (those (map (\<lambda>kv. map_option (Pair (unquote (fst kv))) (interp (snd kv))) ms))"

text \<open>\<open>m[key]\<close> on the decoded map: the members are kept in input order, the last wins.\<close>

definition lookup :: "(string \<times> json) list \<Rightarrow> string \<Rightarrow> json option" where
  "lookup ms k = map_of (rev ms) k"

definition json_Unmarshal :: "string \<Rightarrow> error + json" where
  "json_Unmarshal data =
     (case json_parse data of
        None \<Rightarrow> Inl JSONError
      | Some c \<Rightarrow> (case interp c of None \<Rightarrow> Inl JSONError | Some j \<Rightarrow> Inr j))"

section \<open>Enumerations (element.go)\<close>

text \<open>
  \<open>strings.ToLower\<close> and \<open>bytes.ToLower\<close> on the bytes of ASCII text: the letters A to Z
  become a to z, every other byte stays. (Go also maps the upper-case letters beyond ASCII,
  which are several bytes each in UTF-8; the model leaves those bytes unchanged.)
\<close>

definition lower_char :: "char \<Rightarrow> char" where
  "lower_char c =
     (case map_of (zip ''ABCDEFGHIJKLMNOPQRSTUVWXYZ'' ''abcdefghijklmnopqrstuvwxyz'') c of
        None \<Rightarrow> c
      | Some l \<Rightarrow> l)"

definition ToLower :: "string \<Rightarrow> string" where
  "ToLower s = map lower_char s"

fun ProcessingKind_String :: "ProcessingKind \<Rightarrow> string" where
  "ProcessingKind_String Package = ''Package''"
| "ProcessingKind_String NUMANode = ''NUMANode''"
| "ProcessingKind_String Core = ''Core''"
| "ProcessingKind_String Thread = ''Thread''"
| "ProcessingKind_String UnknownProcessingKind = ''UnknownProcessingKind''"

definition ParseProcessingKind :: "string \<Rightarrow> error + ProcessingKind" where
  "ParseProcessingKind str =
     (if ToLower str = ''package'' then Inr Package
      else if ToLower str = ''numa_node'' \<or> ToLower str = ''numanode'' then Inr NUMANode
      else if ToLower str = ''core'' then Inr Core
      else if ToLower str = ''thread'' then Inr Thread
      else Inl (UnknownProcessingKindError str))"

fun CacheLevel_String :: "CacheLevel \<Rightarrow> string" where
  "CacheLevel_String L1 = ''L1''"
| "CacheLevel_String L2 = ''L2''"
| "CacheLevel_String L3 = ''L3''"
| "CacheLevel_String L4 = ''L4''"
| "CacheLevel_String L5 = ''L5''"
| "CacheLevel_String UnknownCacheLevel = ''Unknown cache level 0''"

definition ParseCacheLevel :: "string \<Rightarrow> error + CacheLevel" where
  "ParseCacheLevel level =
     (if level = ''L1'' then Inr L1
      else if level = ''L2'' then Inr L2
      else if level = ''L3'' then Inr L3
      else if level = ''L4'' then Inr L4
      else if level = ''L5'' then Inr L5
      else Inl (UnknownCacheLevelError level))"

section \<open>Element codec (element.go)\<close>

definition IsRoot :: "Element \<Rightarrow> bool" where
  "IsRoot e = (Processing e = None \<and> Cache e = None)"

definition IsProcessing :: "Element \<Rightarrow> bool" where
  "IsProcessing e = (Cache e = None \<and> Processing e \<noteq> None)"

definition IsCache :: "Element \<Rightarrow> bool" where
  "IsCache e = (Processing e = None \<and> Cache e \<noteq> None)"

subsection \<open>Decoding\<close>

text \<open>
  \<open>UnmarshalJSON\<close> writes through its receiver and returns an error: the model takes the
  element as it is before the call and returns it as it is after, with the error
  (\<open>None\<close> is nil). A type assertion on a missing key fails like one on a value of the
  wrong type.
\<close>

definition unmarshal_Processing :: "Element \<Rightarrow> json \<Rightarrow> Element \<times> error option" where
  "unmarshal_Processing e content =
     (case content of
        JObject processing \<Rightarrow>
          (case (lookup processing ''kind'', lookup processing ''id'') of
             (Some (JString kindStr), Some (JNumber idF64)) \<Rightarrow>
               (case ParseProcessingKind kindStr of
                  Inr kind \<Rightarrow> (e\<lparr>Processing := Some \<lparr>Kind = kind, ID = uint32 idF64\<rparr>\<rparr>, None)
                | Inl err \<Rightarrow> (e, Some (FailedUnmarshalProcessingKind err)))
           | _ \<Rightarrow> (e, Some FailedUnmarshalProcessing))
      | _ \<Rightarrow> (e, Some FailedUnmarshalProcessing))"

definition unmarshal_Cache :: "Element \<Rightarrow> json \<Rightarrow> Element \<times> error option" where
  "unmarshal_Cache e content =
     (case content of
        JObject cache \<Rightarrow>
          (case lookup cache ''attrs'' of
             Some (JObject attrsVal) \<Rightarrow>
               (case (lookup cache ''lvl'', lookup cache ''li'', lookup attrsVal ''size'',
                      lookup attrsVal ''line'', lookup attrsVal ''ways'') of
                  (Some (JString levelStr), Some (JNumber liF64), Some (JNumber sizeF64),
                   Some (JNumber lineF64), Some (JNumber waysF64)) \<Rightarrow>
                    (case ParseCacheLevel levelStr of
                       Inr cacheLevel \<Rightarrow>
                         (e\<lparr>Cache := Some \<lparr>Level = cacheLevel, LogicalIndex = uint32 liF64,
                              Attributes = Some \<lparr>Size = uint64 sizeF64,
                                Linesize = uint32 lineF64, Associativity = int32 waysF64\<rparr>\<rparr>\<rparr>,
                          None)
                     | Inl err \<Rightarrow> (e, Some (FailedUnmarshalCacheLevel err)))
                | _ \<Rightarrow> (e, Some FailedUnmarshalCache))
           | _ \<Rightarrow> (e, Some FailedUnmarshalCache))
      | _ \<Rightarrow> (e, Some FailedUnmarshalCache))"

definition UnmarshalJSON :: "Element \<Rightarrow> string \<Rightarrow> Element \<times> error option" where
  \<open>UnmarshalJSON e data =
     (if prefix ''"machine"'' (ToLower data) then (e\<lparr>Processing := None, Cache := None\<rparr>, None)
      else
        (case json_Unmarshal data of
           Inr (JObject root_map) \<Rightarrow>
             (case lookup root_map ''processing'' of
                Some content \<Rightarrow> unmarshal_Processing (e\<lparr>Cache := None\<rparr>) content
              | None \<Rightarrow>
                  (case lookup root_map ''cache'' of
                     Some content \<Rightarrow> unmarshal_Cache (e\<lparr>Processing := None\<rparr>) content
                   | None \<Rightarrow> (e, Some FailedUnmarshalElement)))
         | Inr _ \<Rightarrow> (e, Some FailedUnmarshalElement)
         | Inl err \<Rightarrow> (e, Some err)))\<close>

subsection \<open>Encoding\<close>

text \<open>
  The text of a syntax tree, without white space, as \<open>json.Marshal\<close> writes it.
\<close>

fun intersperse :: "string \<Rightarrow> string list \<Rightarrow> string" where
  "intersperse sep [] = []"
| "intersperse sep [x] = x"
| "intersperse sep (x # y # ys) = x @ sep @ intersperse sep (y # ys)"

fun show_cst :: "cst \<Rightarrow> string" where
  "show_cst CNull = ''null''"
| "show_cst CTrue = ''true''"
| "show_cst CFalse = ''false''"
| "show_cst (CNumber l) = l"
| "show_cst (CString b) = dquote # b @ [dquote]"
| "show_cst (CArray vs) = CHR ''['' # intersperse '','' (map show_cst vs) @ '']''"
| "show_cst (CObject ms) =
     CHR ''{'' # intersperse '','' (map (\<lambda>kv. dquote # fst kv @ dquote # CHR '':'' # show_cst (snd kv)) ms)
       @ ''}''"

text \<open>Integers in decimal, as \<open>strconv\<close> writes them.\<close>

definition digit_char :: "nat \<Rightarrow> char" where
  "digit_char n = ''0123456789'' ! n"

fun show_nat :: "nat \<Rightarrow> string" where
  "show_nat n = (if n < 10 then [digit_char n] else show_nat (n div 10) @ [digit_char (n mod 10)])"

declare show_nat.simps [simp del]

definition show_int :: "int \<Rightarrow> string" where
  "show_int i = (if i < 0 then CHR ''-'' # show_nat (nat (- i)) else show_nat (nat i))"

text \<open>
  What \<open>json.Marshal\<close> makes of the package's types, by their field tags: the enumerations
  through their own \<open>MarshalJSON\<close> (the kind's name lower-cased, the level's name), the
  integers as numbers, a nil \<open>*CacheAttributes\<close> as \<open>null\<close>. None of the names needs an
  escape.
\<close>

definition marshal_ProcessingKind :: "ProcessingKind \<Rightarrow> cst" where
  "marshal_ProcessingKind pk = CString (ToLower (ProcessingKind_String pk))"

definition marshal_CacheLevel :: "CacheLevel \<Rightarrow> cst" where
  "marshal_CacheLevel cl = CString (CacheLevel_String cl)"

definition marshal_Processing :: "Processing \<Rightarrow> cst" where
  "marshal_Processing p =
     CObject [(''kind'', marshal_ProcessingKind (Kind p)),
              (''id'', CNumber (show_nat (unat (ID p))))]"

definition marshal_CacheAttributes :: "CacheAttributes \<Rightarrow> cst" where
  "marshal_CacheAttributes a =
     CObject [(''size'', CNumber (show_nat (unat (Size a)))),
              (''line'', CNumber (show_nat (unat (Linesize a)))),
              (''ways'', CNumber (show_int (sint (Associativity a))))]"

definition marshal_Cache :: "Cache \<Rightarrow> cst" where
  "marshal_Cache c =
     CObject [(''lvl'', marshal_CacheLevel (Level c)),
              (''li'', CNumber (show_nat (unat (LogicalIndex c)))),
              (''attrs'', (case Attributes c of None \<Rightarrow> CNull | Some a \<Rightarrow> marshal_CacheAttributes a))]"

text \<open>
  \<open>Element.MarshalJSON\<close>: the root is the bare token; a cache or a processing element is
  the one-entry map \<open>raw\<close>, marshalled; any other state is an error.
\<close>

definition MarshalJSON :: "Element \<Rightarrow> error + string" where
  \<open>MarshalJSON e =
     (if IsRoot e then Inr ''"machine"''
      else if IsCache e then Inr (show_cst (CObject [(''cache'', marshal_Cache (the (Cache e)))]))
      else if IsProcessing e then
        Inr (show_cst (CObject [(''processing'', marshal_Processing (the (Processing e)))]))
      else Inl InvalidElement)\<close>

section \<open>Tree and Topology codec (topology.go, tree)\<close>

text \<open>
  \<open>Topology.MarshalJSON\<close> is \<open>json.Marshal(t.Tree)\<close> and \<open>Topology.UnmarshalJSON\<close> is
  \<open>json.Unmarshal(data, &t.Tree)\<close>: the standard library walks \<open>Tree\<close> and \<open>TreeNode\<close> by
  their field tags \<open>nodes\<close>, \<open>data\<close> and \<open>desc,omitempty\<close>, and calls the element's own
  methods for \<open>data\<close>.
\<close>

fun traverse :: "('a \<Rightarrow> error + 'b) \<Rightarrow> 'a list \<Rightarrow> error + 'b list" where
  "traverse f [] = Inr []"
| "traverse f (x # xs) =
     (case f x of
        Inl err \<Rightarrow> Inl err
      | Inr y \<Rightarrow> (case traverse f xs of Inl err \<Rightarrow> Inl err | Inr ys \<Rightarrow> Inr (y # ys)))"

subsection \<open>Encoding\<close>

text \<open>
  A nil \<open>*Element\<close> is \<open>null\<close>; an empty child list is left out. The text an element's
  \<open>MarshalJSON\<close> returns is inserted as it is (it has no white space to remove).
\<close>

definition marshal_TreeNode :: "TreeNode \<Rightarrow> error + string" where
  \<open>marshal_TreeNode n =
     (case (case Data n of None \<Rightarrow> Inr ''null'' | Some e \<Rightarrow> MarshalJSON e) of
        Inl err \<Rightarrow> Inl err
      | Inr d \<Rightarrow>
          Inr (''{"data":'' @ d
               @ (if Children n = [] then []
                  else '',"desc":'' @ show_cst (CArray (map (\<lambda>c. CNumber (show_nat (unat c))) (Children n))))
               @ ''}''))\<close>

text \<open>
  The model does not tell a nil slice from an empty one. \<open>nil_nodes\<close> says which of the
  two an empty \<open>Nodes\<close> is: the nil slice is written \<open>null\<close>, the empty one \<open>[]\<close>.
\<close>

definition marshal_Tree :: "bool \<Rightarrow> Tree \<Rightarrow> error + string" where
  \<open>marshal_Tree nil_nodes tr =
     (if Nodes tr = [] \<and> nil_nodes then Inr ''{"nodes":null}''
      else
        (case traverse marshal_TreeNode (Nodes tr) of
           Inl err \<Rightarrow> Inl err
         | Inr ns \<Rightarrow> Inr (''{"nodes":['' @ intersperse '','' ns @ '']}'')))\<close>

definition Topology_MarshalJSON :: "bool \<Rightarrow> Tree option \<Rightarrow> error + string" where
  "Topology_MarshalJSON nil_nodes t =
     (case t of None \<Rightarrow> Inr ''null'' | Some tr \<Rightarrow> marshal_Tree nil_nodes tr)"

subsection \<open>Decoding\<close>

text \<open>
  Decoding into a topology that holds nothing yet. The whole input is checked first. A
  key is matched with a field's name without regard to (ASCII) case, other keys are
  skipped, and \<open>null\<close> leaves a field as it is. A child ID must be a literal of digits
  below \<open>2 ^ 32\<close>. \<open>data\<close> that is not \<open>null\<close> goes to \<open>Element.UnmarshalJSON\<close> as text.
  Every error, of the library or of the element, makes the decoding fail. (Where a key
  is repeated, Go decodes the later value into what the earlier one left; the model
  decodes the later value afresh.)
\<close>

definition decode_uint32 :: "cst \<Rightarrow> error + NodeID" where
  "decode_uint32 v =
     (case v of
        CNull \<Rightarrow> Inr 0
      | CNumber l \<Rightarrow>
          if list_all is_digit l \<and> int_of_digits l < 2 ^ 32 then Inr (word_of_int (int_of_digits l))
          else Inl JSONError
      | _ \<Rightarrow> Inl JSONError)"

definition decode_Children :: "cst \<Rightarrow> error + NodeID list" where
  "decode_Children v =
     (case v of
        CNull \<Rightarrow> Inr []
      | CArray vs \<Rightarrow> traverse decode_uint32 vs
      | _ \<Rightarrow> Inl JSONError)"

definition decode_Data :: "cst \<Rightarrow> error + Element option" where
  "decode_Data v =
     (case v of
        CNull \<Rightarrow> Inr None
      | _ \<Rightarrow>
          (case UnmarshalJSON \<lparr>Processing = None, Cache = None\<rparr> (show_cst v) of
             (e, None) \<Rightarrow> Inr (Some e)
           | (e, Some err) \<Rightarrow> Inl err))"

fun decode_TreeNode_members :: "(string \<times> cst) list \<Rightarrow> TreeNode \<Rightarrow> error + TreeNode" where
  "decode_TreeNode_members [] n = Inr n"
| "decode_TreeNode_members ((k, v) # ms) n =
     (if ToLower (unquote k) = ''data'' then
        (case decode_Data v of
           Inl err \<Rightarrow> Inl err
         | Inr d \<Rightarrow> decode_TreeNode_members ms (n\<lparr>Data := d\<rparr>))
      else if ToLower (unquote k) = ''desc'' then
        (case decode_Children v of
           Inl err \<Rightarrow> Inl err
         | Inr cs \<Rightarrow> decode_TreeNode_members ms (n\<lparr>Children := cs\<rparr>))
      else decode_TreeNode_members ms n)"

definition decode_TreeNode :: "cst \<Rightarrow> error + TreeNode" where
  "decode_TreeNode v =
     (case v of
        CNull \<Rightarrow> Inr \<lparr>Data = None, Children = []\<rparr>
      | CObject ms \<Rightarrow> decode_TreeNode_members ms \<lparr>Data = None, Children = []\<rparr>
      | _ \<Rightarrow> Inl JSONError)"

definition decode_Nodes :: "cst \<Rightarrow> error + TreeNode list" where
  "decode_Nodes v =
     (case v of
        CNull \<Rightarrow> Inr []
      | CArray vs \<Rightarrow> traverse decode_TreeNode vs
      | _ \<Rightarrow> Inl JSONError)"

fun decode_Tree_members :: "(string \<times> cst) list \<Rightarrow> Tree \<Rightarrow> error + Tree" where
  "decode_Tree_members [] tr = Inr tr"
| "decode_Tree_members ((k, v) # ms) tr =
     (if ToLower (unquote k) = ''nodes'' then
        (case decode_Nodes v of
           Inl err \<Rightarrow> Inl err
         | Inr ns \<Rightarrow> decode_Tree_members ms (tr\<lparr>Nodes := ns\<rparr>))
      else decode_Tree_members ms tr)"

definition Topology_UnmarshalJSON :: "string \<Rightarrow> error + Tree option" where
  "Topology_UnmarshalJSON data =
     (case json_parse data of
        None \<Rightarrow> Inl JSONError
      | Some CNull \<Rightarrow> Inr None
      | Some (CObject ms) \<Rightarrow>
          (case decode_Tree_members ms \<lparr>Nodes = []\<rparr> of
             Inl err \<Rightarrow> Inl err
           | Inr tr \<Rightarrow> Inr (Some tr))
      | Some _ \<Rightarrow> Inl JSONError)"

subsection \<open>Text that needs no care\<close>

text \<open>
  What ends a number: the end of the input, or a character that cannot continue a number.
  A plain character stands for itself in a string. A plain value has plain strings and
  keys, and integers in decimal for numbers: it is what the encoders above write.
\<close>

definition number_end :: "string \<Rightarrow> bool" where
  "number_end r = (case r of [] \<Rightarrow> True
     | c # _ \<Rightarrow> \<not> is_digit c \<and> c \<noteq> CHR ''.'' \<and> c \<noteq> CHR ''e'' \<and> c \<noteq> CHR ''E'')"

definition plain_char :: "char \<Rightarrow> bool" where
  "plain_char c = (c \<noteq> dquote \<and> c \<noteq> backslash \<and> \<not> (of_char c :: nat) < 32)"

fun plain :: "cst \<Rightarrow> bool" where
  "plain CNull = True"
| "plain CTrue = True"
| "plain CFalse = True"
| "plain (CNumber l) = (\<exists>i. l = show_int i)"
| "plain (CString b) = list_all plain_char b"
| "plain (CArray vs) = list_all plain vs"
| "plain (CObject ms) = list_all (\<lambda>kv. list_all plain_char (fst kv) \<and> plain (snd kv)) ms"

definition value_end :: "cst \<Rightarrow> string \<Rightarrow> bool" where
  "value_end v r = (case v of CNumber _ \<Rightarrow> number_end r | _ \<Rightarrow> True)"

text \<open>The first character of a value's text, and the text of an object's member.\<close>

definition value_start :: "char \<Rightarrow> bool" where
  "value_start c = (\<not> is_ws c \<and> c \<noteq> CHR '']'' \<and> c \<noteq> CHR ''}'')"

definition show_member :: "string \<times> cst \<Rightarrow> string" where
  "show_member kv = dquote # fst kv @ dquote # CHR '':'' # show_cst (snd kv)"

subsection \<open>What decoding yields\<close>

text \<open>
  An element as a successful \<open>UnmarshalJSON\<close> leaves it: the root, a processing element
  of a known kind, or a cache of a known level with its attributes; never both. A node
  as decoding leaves it holds no element (\<open>data\<close> absent or \<open>null\<close>) or such an element.
\<close>

definition decoded_element :: "Element \<Rightarrow> bool" where
  "decoded_element e =
     (case (Processing e, Cache e) of
        (None, None) \<Rightarrow> True
      | (Some p, None) \<Rightarrow> Kind p \<noteq> UnknownProcessingKind
      | (None, Some c) \<Rightarrow> Level c \<noteq> UnknownCacheLevel \<and> Attributes c \<noteq> None
      | (Some p, Some c) \<Rightarrow> False)"

definition decoded_node :: "TreeNode \<Rightarrow> bool" where
  "decoded_node n = (case Data n of None \<Rightarrow> True | Some e \<Rightarrow> decoded_element e)"

text \<open>The syntax trees whose text the encoders write.\<close>

definition cst_Element :: "Element \<Rightarrow> cst" where
  "cst_Element e =
     (if IsRoot e then CString ''machine''
      else if IsCache e then CObject [(''cache'', marshal_Cache (the (Cache e)))]
      else CObject [(''processing'', marshal_Processing (the (Processing e)))])"

definition cst_TreeNode :: "TreeNode \<Rightarrow> cst" where
  "cst_TreeNode n =
     CObject ((''data'', (case Data n of None \<Rightarrow> CNull | Some e \<Rightarrow> cst_Element e))
              # (if Children n = [] then []
                 else [(''desc'', CArray (map (\<lambda>c. CNumber (show_nat (unat c))) (Children n)))]))"

definition cst_Tree :: "bool \<Rightarrow> Tree \<Rightarrow> cst" where
  "cst_Tree nil_nodes tr =
     CObject [(''nodes'', if Nodes tr = [] \<and> nil_nodes then CNull
                          else CArray (map cst_TreeNode (Nodes tr)))]"

section \<open>Tree invariants\<close>

text \<open>
  The invariants the specification puts on a valid tree, as executable predicates over
  node indices. A child entry \<open>c\<close> refers to the node at index \<open>unat c\<close>.
\<close>

definition children_in_bounds :: "Tree \<Rightarrow> bool" where
  "children_in_bounds tr =
     list_all (\<lambda>n. list_all (\<lambda>c. unat c < length (Nodes tr)) (Children n)) (Nodes tr)"

text \<open>The indices of the nodes that list node \<open>n\<close> as a child, in storage order.\<close>

definition parents_of :: "Tree \<Rightarrow> nat \<Rightarrow> nat list" where
  "parents_of tr n =
     filter (\<lambda>p. n \<in> set (map unat (Children (Nodes tr ! p)))) [0..<length (Nodes tr)]"

text \<open>
  The unique-parent invariant: every node other than node 0 occurs in the child list of
  exactly one node, and node 0 in none.
\<close>

definition unique_parent :: "Tree \<Rightarrow> bool" where
  "unique_parent tr =
     (parents_of tr 0 = []
      \<and> list_all (\<lambda>n. length (parents_of tr n) = 1) [1..<length (Nodes tr)])"

text \<open>
  Distance from the root along child entries: node 0 is at depth 0, and a child of a node
  at depth \<open>d\<close> is at depth \<open>d + 1\<close>.
\<close>

inductive has_depth :: "Tree \<Rightarrow> nat \<Rightarrow> nat \<Rightarrow> bool" for tr :: Tree where
  root: "Nodes tr \<noteq> [] \<Longrightarrow> has_depth tr 0 0"
| child: "has_depth tr p d \<Longrightarrow> p < length (Nodes tr) \<Longrightarrow> c \<in> set (Children (Nodes tr ! p))
    \<Longrightarrow> has_depth tr (unat c) (Suc d)"

text \<open>The subtree rooted at \<open>n\<close>: \<open>n\<close> and everything reached from it along child entries.\<close>

inductive in_subtree :: "Tree \<Rightarrow> nat \<Rightarrow> nat \<Rightarrow> bool" for tr :: Tree and n :: nat where
  self: "n < length (Nodes tr) \<Longrightarrow> in_subtree tr n n"
| child: "in_subtree tr n p \<Longrightarrow> p < length (Nodes tr) \<Longrightarrow> c \<in> set (Children (Nodes tr ! p))
    \<Longrightarrow> in_subtree tr n (unat c)"

text \<open>
  A valid tree: it has a node; child entries refer to nodes, and no child list repeats
  one; the unique-parent invariant holds; and every node is reached from the root, which
  with the unique parents makes the child relation one connected acyclic structure.
\<close>

definition valid_tree :: "Tree \<Rightarrow> bool" where
  "valid_tree tr =
     (Nodes tr \<noteq> []
      \<and> children_in_bounds tr
      \<and> list_all (\<lambda>n. distinct (Children n)) (Nodes tr)
      \<and> unique_parent tr
      \<and> (\<forall>n<length (Nodes tr). \<exists>d. has_depth tr n d))"

text \<open>
  A chain of ancestors of \<open>n\<close>: it starts with a node that lists \<open>n\<close> as a child, goes on
  with a node that lists that one, and ends when the root has been given (the chain of
  node 0 itself is empty).
\<close>

fun ancestor_chain :: "Tree \<Rightarrow> nat \<Rightarrow> nat list \<Rightarrow> bool" where
  "ancestor_chain tr n [] = (n = 0)"
| "ancestor_chain tr n (p # ps) =
     (n \<noteq> 0 \<and> p < length (Nodes tr) \<and> n \<in> set (map unat (Children (Nodes tr ! p)))
      \<and> ancestor_chain tr p ps)"

text \<open>The leaves of the subtree rooted at \<open>n\<close>: its nodes with an empty child list.\<close>

definition leaf_set :: "Tree \<Rightarrow> nat \<Rightarrow> nat set" where
  "leaf_set tr n = {m. in_subtree tr n m \<and> Children (Nodes tr ! m) = []}"

text \<open>
  What the stack loop of \<open>LeafDescendantIDs\<close> does with node \<open>c\<close> on top of its stack: it
  goes on as if \<open>c\<close> had been popped and \<open>ls\<close> appended to the result, where \<open>ls\<close> holds
  each leaf of the subtree of \<open>c\<close> once.
\<close>

definition collects :: "Tree \<Rightarrow> NodeID \<Rightarrow> NodeID list \<Rightarrow> bool" where
  "collects tr c ls =
     ((\<forall>st acc. leaf_ids_loop (Nodes tr) (st @ [(c, Nodes tr ! unat c)]) acc
                  = leaf_ids_loop (Nodes tr) st (acc @ ls))
      \<and> distinct ls
      \<and> unat ` set ls = leaf_set tr (unat c))"

section \<open>Example trees\<close>

text \<open>
  The scenario of the specification: a machine with two NUMA nodes, the first of which
  holds one core.
\<close>

definition machine :: Element where
  "machine = \<lparr>Processing = None, Cache = None\<rparr>"

definition example_tree :: Tree where
  "example_tree = \<lparr>Nodes =
     [\<lparr>Data = Some machine, Children = [1, 2]\<rparr>,
      \<lparr>Data = Some \<lparr>Processing = Some \<lparr>Kind = NUMANode, ID = 0\<rparr>, Cache = None\<rparr>,
       Children = [3]\<rparr>,
      \<lparr>Data = Some \<lparr>Processing = Some \<lparr>Kind = NUMANode, ID = 1\<rparr>, Cache = None\<rparr>,
       Children = []\<rparr>,
      \<lparr>Data = Some \<lparr>Processing = Some \<lparr>Kind = Core, ID = 0\<rparr>, Cache = None\<rparr>,
       Children = []\<rparr>]\<rparr>"

text \<open>A one-node tree whose root lists a child that does not exist, and the tree with no node.\<close>

definition dangling_tree :: Tree where
  "dangling_tree = \<lparr>Nodes = [\<lparr>Data = Some machine, Children = [5]\<rparr>]\<rparr>"

definition empty_tree :: Tree where
  "empty_tree = \<lparr>Nodes = []\<rparr>"

section \<open>Example documents\<close>

text \<open>An element that is a core, and an object that holds both recognised keys.\<close>

definition core7 :: Element where
  "core7 = \<lparr>Processing = Some \<lparr>Kind = Core, ID = 7\<rparr>, Cache = None\<rparr>"

definition both_keys :: string where
  \<open>both_keys = ''{"processing":{"kind":"core","id":7},"cache":{"lvl":"L1","li":0,"attrs":{"size":1,"line":1,"ways":1}}}''\<close>

definition both_keys_processing :: json where
  "both_keys_processing = JObject [(''kind'', JString ''core''), (''id'', JNumber (F64 7 0))]"

definition both_keys_cache :: json where
  "both_keys_cache = JObject [(''lvl'', JString ''L1''), (''li'', JNumber (F64 0 0)),
     (''attrs'', JObject [(''size'', JNumber (F64 1 0)), (''line'', JNumber (F64 1 0)),
        (''ways'', JNumber (F64 1 0))])]"

text \<open>A document with white space and mixed case, and the topology it decodes to.\<close>

definition small_doc :: string where
  \<open>small_doc = '' {"Nodes": [ {"data":"Machine","desc":[1]}, {"data":{"cache":{"lvl":"L2","li":3,"attrs":{"size":1048576,"line":64,"ways":-1}}}} ]} ''\<close>

definition small_tree :: Tree where
  "small_tree = \<lparr>Nodes =
     [\<lparr>Data = Some machine, Children = [1]\<rparr>,
      \<lparr>Data = Some \<lparr>Processing = None, Cache = Some \<lparr>Level = L2, LogicalIndex = 3,
          Attributes = Some \<lparr>Size = 1048576, Linesize = 64, Associativity = - 1\<rparr>\<rparr>\<rparr>,
       Children = []\<rparr>]\<rparr>"

definition small_doc_again :: string where
  \<open>small_doc_again = ''{"nodes":[{"data":"machine","desc":[1]},{"data":{"cache":{"lvl":"L2","li":3,"attrs":{"size":1048576,"line":64,"ways":-1}}}}]}''\<close>

section \<open>Bounds checks\<close>

text \<open>
  C4 (as amended). Each bounds-checked query (\<open>Get\<close>, \<open>ImmediateDescendantIDs\<close>,
  \<open>ImmediateDescendants\<close>, \<open>LeafDescendantIDs\<close>, \<open>LeafDescendants\<close>, \<open>ParentID\<close>,
  \<open>Parent\<close>, \<open>AncestorIDs\<close>, \<open>Ancestors\<close>) on a non-nil tree, called with an id that
  is at least the node count, returns the invalid-NodeID error; this includes the tree
  with no node, where every id is out of range. On the nil tree each returns the
  nil-tree error. \<open>Size\<close> and \<open>IsEmpty\<close> return 0 and true on the nil tree and on the
  tree with no node.
\<close>

theorem bounds_checked_queries:
  "(length (Nodes tr) \<le> unat nid \<longrightarrow>
      Get (Some tr) nid = Error (InvalidNodeID nid)
    \<and> ImmediateDescendantIDs (Some tr) nid = Error (InvalidNodeID nid)
    \<and> ImmediateDescendants (Some tr) nid = Error (InvalidNodeID nid)
    \<and> LeafDescendantIDs (Some tr) nid = Some (Error (InvalidNodeID nid))
    \<and> LeafDescendants (Some tr) nid = Some (Error (InvalidNodeID nid))
    \<and> ParentID (Some tr) nid = Error (InvalidNodeID nid)
    \<and> Parent (Some tr) nid = Error (InvalidNodeID nid)
    \<and> AncestorIDs (Some tr) nid = Some (Error (InvalidNodeID nid))
    \<and> Ancestors (Some tr) nid = Some (Error (InvalidNodeID nid)))
  \<and> Get None nid = Error TreeIsNil
  \<and> ImmediateDescendantIDs None nid = Error TreeIsNil
  \<and> ImmediateDescendants None nid = Error TreeIsNil
  \<and> LeafDescendantIDs None nid = Some (Error TreeIsNil)
  \<and> LeafDescendants None nid = Some (Error TreeIsNil)
  \<and> ParentID None nid = Error TreeIsNil
  \<and> Parent None nid = Error TreeIsNil
  \<and> AncestorIDs None nid = Some (Error TreeIsNil)
  \<and> Ancestors None nid = Some (Error TreeIsNil)
  \<and> Tree_Size None = 0 \<and> IsEmpty None
  \<and> (Nodes tr = [] \<longrightarrow> Tree_Size (Some tr) = 0 \<and> IsEmpty (Some tr))"
  by (simp add: Get_def ImmediateDescendantIDs_def ImmediateDescendants_def
      LeafDescendantIDs_def LeafDescendants_def ParentID_def Parent_def AncestorIDs_def
      Ancestors_def Tree_Size_def IsEmpty_def)

theorem bounds_checked_queries_witness:
  "Get (Some example_tree) 4 = Error (InvalidNodeID 4)
   \<and> ParentID (Some example_tree) 4 = Error (InvalidNodeID 4)
   \<and> AncestorIDs (Some example_tree) 4 = Some (Error (InvalidNodeID 4))
   \<and> LeafDescendantIDs (Some example_tree) 4 = Some (Error (InvalidNodeID 4))
   \<and> Get None 4 = Error TreeIsNil
   \<and> Parent (Some empty_tree) 0 = Error (InvalidNodeID 0)
   \<and> Tree_Size (Some empty_tree) = 0 \<and> IsEmpty (Some empty_tree)"
  using bounds_checked_queries [of example_tree 4] bounds_checked_queries [of empty_tree 0]
  by (simp add: example_tree_def empty_tree_def)

text \<open>
  C4 as stated fails on the tree with no node: it is not nil, so the queries go on to the
  bounds check and report the invalid NodeID, not an empty-or-nil tree. Only \<open>Root\<close>
  reports the empty tree.
\<close>

theorem zero_node_tree_counterexample:
  "Get (Some empty_tree) 0 = Error (InvalidNodeID 0)
   \<and> Get (Some empty_tree) 0 \<noteq> Error TreeIsNil
   \<and> Get (Some empty_tree) 0 \<noteq> Error TreeIsEmpty
   \<and> ParentID (Some empty_tree) 0 = Error (InvalidNodeID 0)
   \<and> AncestorIDs (Some empty_tree) 0 = Some (Error (InvalidNodeID 0))
   \<and> Root (Some empty_tree) = Error TreeIsEmpty"
  by (simp add: Get_def ParentID_def AncestorIDs_def Root_def empty_tree_def)

section \<open>The root has no parent\<close>

text \<open>
  C8. On every non-nil tree with at least one node, \<open>ParentID 0\<close> and \<open>Parent 0\<close> return
  the no-parent error, whatever the tree holds.
\<close>

theorem root_has_no_parent:
  "Nodes tr \<noteq> [] \<Longrightarrow>
     ParentID (Some tr) 0 = Error RootHasNoParent \<and> Parent (Some tr) 0 = Error RootHasNoParent"
  by (simp add: ParentID_def Parent_def)

theorem root_has_no_parent_witness:
  "Nodes example_tree \<noteq> []
   \<and> ParentID (Some example_tree) 0 = Error RootHasNoParent
   \<and> Parent (Some example_tree) 0 = Error RootHasNoParent"
proof -
  have ne: "Nodes example_tree \<noteq> []" by (simp add: example_tree_def)
  from root_has_no_parent [OF ne] ne show ?thesis by simp
qed

section \<open>Ancestors of the root\<close>

lemma set_parent_of_Return:
  "length tbl = N \<Longrightarrow> list_all (\<lambda>c. unat c < N) cs \<Longrightarrow>
     \<exists>tbl'. set_parent_of cs p tbl = Return tbl' \<and> length tbl' = N"
  by (induction cs arbitrary: tbl) auto

lemma fill_ancestor_table_Return:
  "length tbl = N \<Longrightarrow> list_all (\<lambda>n. list_all (\<lambda>c. unat c < N) (Children n)) ns \<Longrightarrow>
     \<exists>tbl'. fill_ancestor_table ns k tbl = Return tbl' \<and> length tbl' = N"
proof (induction ns arbitrary: k tbl)
  case Nil
  then show ?case by simp
next
  case (Cons n ns)
  from Cons.prems obtain t1 where
    t1: "set_parent_of (Children n) (of_nat k) tbl = Return t1" "length t1 = N"
    using set_parent_of_Return [of tbl N "Children n" "of_nat k"] by auto
  from Cons.prems have "list_all (\<lambda>n. list_all (\<lambda>c. unat c < N) (Children n)) ns"
    by simp
  from Cons.IH [OF t1(2) this, of "Suc k"] t1 show ?case by auto
qed

lemma build_ancestor_table_Return:
  "children_in_bounds tr \<Longrightarrow>
     \<exists>tbl. build_ancestor_table (Nodes tr) = Return tbl \<and> length tbl = length (Nodes tr)"
  unfolding children_in_bounds_def build_ancestor_table_def
  using fill_ancestor_table_Return [of "replicate (length (Nodes tr)) 0" "length (Nodes tr)" "Nodes tr" 0]
  by simp

text \<open>
  C10 (as amended). On every non-nil tree with at least one node, all of whose child
  entries are below the node count, \<open>AncestorIDs 0\<close> and \<open>Ancestors 0\<close> return the
  empty list and no error: the walk stops at once, where \<open>ParentID 0\<close> and \<open>Parent 0\<close>
  return the no-parent error.
\<close>

theorem ancestors_of_root:
  assumes "Nodes tr \<noteq> []" and "children_in_bounds tr"
  shows "AncestorIDs (Some tr) 0 = Some (Return []) \<and> Ancestors (Some tr) 0 = Some (Return [])"
proof -
  from build_ancestor_table_Return [OF assms(2)] obtain tbl where
    "build_ancestor_table (Nodes tr) = Return tbl" by blast
  with assms(1) show ?thesis
    by (simp add: AncestorIDs_def Ancestors_def ancestor_ids_loop.simps ancestors_loop.simps)
qed

theorem ancestors_of_root_witness:
  "Nodes example_tree \<noteq> [] \<and> children_in_bounds example_tree
   \<and> AncestorIDs (Some example_tree) 0 = Some (Return [])
   \<and> Ancestors (Some example_tree) 0 = Some (Return [])"
proof -
  have ne: "Nodes example_tree \<noteq> []" by (simp add: example_tree_def)
  have ib: "children_in_bounds example_tree"
    by (simp add: example_tree_def children_in_bounds_def)
  from ancestors_of_root [OF ne ib] ne ib show ?thesis by simp
qed

text \<open>
  C10 as stated fails on a tree that holds a child entry out of range: the parent table is
  built before the walk, and writing the slot of that child panics.
\<close>

theorem dangling_child_counterexample:
  "Nodes dangling_tree \<noteq> []
   \<and> AncestorIDs (Some dangling_tree) 0 = Some (Panic IndexOutOfRange)
   \<and> Ancestors (Some dangling_tree) 0 = Some (Panic IndexOutOfRange)"
  by (simp add: dangling_tree_def AncestorIDs_def Ancestors_def build_ancestor_table_def)

section \<open>Parents under the unique-parent invariant\<close>

lemma find_parent_None:
  "(find_parent ns k nid = None) = (\<forall>j<length ns. nid \<notin> set (Children (ns ! j)))"
proof (induction ns arbitrary: k)
  case Nil
  then show ?case by simp
next
  case (Cons n ns)
  have "(\<forall>j<Suc (length ns). nid \<notin> set (Children ((n # ns) ! j)))
      = (nid \<notin> set (Children n) \<and> (\<forall>j<length ns. nid \<notin> set (Children (ns ! j))))"
    by (simp add: All_less_Suc2)
  then show ?case by (simp add: Cons.IH)
qed

lemma find_parent_Some:
  "find_parent ns k nid = Some r \<Longrightarrow>
     \<exists>j<length ns. r = k + j \<and> nid \<in> set (Children (ns ! j))
        \<and> (\<forall>j'<j. nid \<notin> set (Children (ns ! j')))"
proof (induction ns arbitrary: k)
  case Nil
  then show ?case by simp
next
  case (Cons n ns)
  show ?case
  proof (cases "nid \<in> set (Children n)")
    case True
    with Cons.prems show ?thesis by (intro exI [of _ 0]) simp
  next
    case False
    with Cons.prems have "find_parent ns (Suc k) nid = Some r" by simp
    from Cons.IH [OF this] obtain j where j: "j < length ns" "r = Suc k + j"
      "nid \<in> set (Children (ns ! j))" "\<forall>j'<j. nid \<notin> set (Children (ns ! j'))" by blast
    show ?thesis
      using j False by (intro exI [of _ "Suc j"]) (auto simp: nth_Cons less_Suc_eq_0_disj)
  qed
qed

lemma parents_of_single:
  assumes "parents_of tr n = [p]"
  shows "p < length (Nodes tr) \<and> n \<in> unat ` set (Children (Nodes tr ! p))
     \<and> (\<forall>q<length (Nodes tr). n \<in> unat ` set (Children (Nodes tr ! q)) \<longrightarrow> q = p)"
proof -
  have "\<And>q. (q \<in> set (parents_of tr n))
      = (q < length (Nodes tr) \<and> n \<in> unat ` set (Children (Nodes tr ! q)))"
    by (simp add: parents_of_def)
  then have "\<And>q. (q = p)
      = (q < length (Nodes tr) \<and> n \<in> unat ` set (Children (Nodes tr ! q)))"
    by (simp add: assms)
  then show ?thesis by blast
qed

lemma unique_parent_single:
  assumes "unique_parent tr" "0 < n" "n < length (Nodes tr)"
  shows "\<exists>p. parents_of tr n = [p]"
proof -
  from assms have "length (parents_of tr n) = 1"
    by (auto simp: unique_parent_def list_all_iff)
  then show ?thesis by (cases "parents_of tr n") auto
qed

lemma unique_parent_index:
  assumes "unique_parent tr" and "p < length (Nodes tr)"
  shows "unat (of_nat p :: NodeID) = p"
proof (cases "p = 0")
  case True
  then show ?thesis by simp
next
  case False
  then have "0 < p" by simp
  from unique_parent_single [OF assms(1) this assms(2)] obtain q where
    "parents_of tr p = [q]" by blast
  from parents_of_single [OF this] obtain c :: NodeID where c: "unat c = p" by auto
  have "of_nat (unat c) = c" by simp
  with c have "(of_nat p :: NodeID) = c" by simp
  with c show ?thesis by simp
qed

lemma unat_image_mem: "(unat (c :: NodeID) \<in> unat ` set cs) = (c \<in> set cs)"
proof
  assume "unat c \<in> unat ` set cs"
  then obtain x where "x \<in> set cs" "unat c = unat x" by blast
  then show "c \<in> set cs" using word_unat_eq_iff [of c x] by simp
next
  assume "c \<in> set cs"
  then show "unat c \<in> unat ` set cs" by blast
qed

text \<open>
  C9. Under the unique-parent invariant, for every id with \<open>0 < id < node count\<close>,
  \<open>ParentID\<close> and \<open>Parent\<close> do not reach their \<open>panic("UNREACHABLE")\<close>: they return
  the one node \<open>p\<close> whose child list holds \<open>id\<close> (as a NodeID that reads back as the
  index \<open>p\<close>), respectively its element.
\<close>

theorem parent_is_found:
  assumes "unique_parent tr" and "nid \<noteq> 0" and "unat nid < length (Nodes tr)"
  shows "\<exists>p. parents_of tr (unat nid) = [p] \<and> p < length (Nodes tr)
           \<and> nid \<in> set (Children (Nodes tr ! p))
           \<and> unat (of_nat p :: NodeID) = p
           \<and> ParentID (Some tr) nid = Return (of_nat p)
           \<and> Parent (Some tr) nid = Return (Data (Nodes tr ! p))"
proof -
  from assms(2) have pos: "0 < unat nid" by (simp add: unat_gt_0)
  from unique_parent_single [OF assms(1) pos assms(3)] obtain p where
    p: "parents_of tr (unat nid) = [p]" by blast
  from parents_of_single [OF p] have
    plt: "p < length (Nodes tr)" and
    mem: "nid \<in> set (Children (Nodes tr ! p))" and
    uniq: "\<And>q. q < length (Nodes tr) \<Longrightarrow> nid \<in> set (Children (Nodes tr ! q)) \<Longrightarrow> q = p"
    by (simp_all add: unat_image_mem)
  from plt mem have "find_parent (Nodes tr) 0 nid \<noteq> None"
    unfolding find_parent_None by blast
  then obtain r where r: "find_parent (Nodes tr) 0 nid = Some r" by blast
  from find_parent_Some [OF r] obtain j where
    "j < length (Nodes tr)" "r = j" "nid \<in> set (Children (Nodes tr ! j))" by auto
  with uniq have "r = p" by blast
  from unique_parent_index [OF assms(1) plt] have idx: "unat (of_nat p :: NodeID) = p" .
  have "ParentID (Some tr) nid = Return (of_nat p)"
    using assms(2,3) r \<open>r = p\<close> by (simp add: ParentID_def)
  moreover have "Parent (Some tr) nid = Return (Data (Nodes tr ! p))"
    using assms(2,3) r \<open>r = p\<close> by (simp add: Parent_def)
  ultimately show ?thesis using p plt mem idx by blast
qed

theorem parent_is_found_witness:
  "unique_parent example_tree \<and> (3 :: NodeID) \<noteq> 0
   \<and> unat (3 :: NodeID) < length (Nodes example_tree)
   \<and> parents_of example_tree 3 = [1]
   \<and> ParentID (Some example_tree) 3 = Return 1
   \<and> Parent (Some example_tree) 3 = Return (Data (Nodes example_tree ! 1))"
proof -
  have up: "unique_parent example_tree"
    by (simp add: unique_parent_def parents_of_def example_tree_def upt_conv_Cons)
  have nz: "(3 :: NodeID) \<noteq> 0" by simp
  have lt: "unat (3 :: NodeID) < length (Nodes example_tree)"
    by (simp add: example_tree_def)
  have po: "parents_of example_tree 3 = [1]"
    by (simp add: parents_of_def example_tree_def upt_conv_Cons)
  from parent_is_found [OF up nz lt] obtain p where
    p: "parents_of example_tree (unat (3 :: NodeID)) = [p]"
       "ParentID (Some example_tree) 3 = Return (of_nat p)"
       "Parent (Some example_tree) 3 = Return (Data (Nodes example_tree ! p))"
    by blast
  from p(1) po have "p = 1" by simp
  with p up nz lt po show ?thesis by simp
qed

section \<open>The parent table\<close>

lemma set_parent_of_nth:
  "set_parent_of cs p tbl = Return tbl' \<Longrightarrow> n < length tbl \<Longrightarrow>
     tbl' ! n = (if n \<in> unat ` set cs then p else tbl ! n)"
proof (induction cs arbitrary: tbl)
  case Nil
  then show ?case by simp
next
  case (Cons c cs)
  from Cons.prems(1) have lt: "unat c < length tbl"
    and rec: "set_parent_of cs p (tbl[unat c := p]) = Return tbl'"
    by (auto split: if_splits)
  from Cons.IH [OF rec] Cons.prems(2)
  have "tbl' ! n = (if n \<in> unat ` set cs then p else tbl[unat c := p] ! n)" by simp
  with lt Cons.prems(2) show ?case by (auto simp: nth_list_update)
qed

lemma set_parent_of_length:
  "set_parent_of cs p tbl = Return tbl' \<Longrightarrow> length tbl' = length tbl"
  by (induction cs arbitrary: tbl) (auto split: if_splits)

lemma fill_ancestor_table_length:
  "fill_ancestor_table ns k tbl = Return tbl' \<Longrightarrow> length tbl' = length tbl"
proof (induction ns arbitrary: k tbl)
  case Nil
  then show ?case by simp
next
  case (Cons n ns)
  from Cons.prems obtain t1 where t1: "set_parent_of (Children n) (of_nat k) tbl = Return t1"
    and rec: "fill_ancestor_table ns (Suc k) t1 = Return tbl'"
    by (auto split: result.splits)
  from Cons.IH [OF rec] set_parent_of_length [OF t1] show ?case by simp
qed

text \<open>A slot that a single node writes holds that node's index.\<close>

lemma fill_ancestor_table_nth:
  assumes "fill_ancestor_table ns k tbl = Return tbl'" and "n < length tbl"
    and "j < length ns" and "n \<in> unat ` set (Children (ns ! j))"
    and "\<And>i. i < length ns \<Longrightarrow> n \<in> unat ` set (Children (ns ! i)) \<Longrightarrow> i = j"
  shows "tbl' ! n = of_nat (k + j)"
  using assms
proof (induction ns arbitrary: k tbl j)
  case Nil
  then show ?case by simp
next
  case (Cons x xs)
  from Cons.prems(1) obtain t1 where t1: "set_parent_of (Children x) (of_nat k) tbl = Return t1"
    and rec: "fill_ancestor_table xs (Suc k) t1 = Return tbl'"
    by (auto split: result.splits)
  have len1: "length t1 = length tbl" by (rule set_parent_of_length [OF t1])
  show ?case
  proof (cases j)
    case 0
    with Cons.prems(4) have here: "n \<in> unat ` set (Children x)" by simp
    have none: "\<And>i. i < length xs \<Longrightarrow> n \<notin> unat ` set (Children (xs ! i))"
    proof
      fix i assume "i < length xs" "n \<in> unat ` set (Children (xs ! i))"
      with Cons.prems(5) [of "Suc i"] 0 show False by simp
    qed
    have keep: "tbl' ! n = t1 ! n"
      using rec none Cons.prems(2) len1
    proof (induction xs arbitrary: k t1)
      case Nil
      then show ?case by simp
    next
      case (Cons y ys)
      from Cons.prems(1) obtain t2 where
        t2: "set_parent_of (Children y) (of_nat (Suc k)) t1 = Return t2"
        and rec2: "fill_ancestor_table ys (Suc (Suc k)) t2 = Return tbl'"
        by (auto split: result.splits)
      have "n \<notin> unat ` set (Children y)" using Cons.prems(2) [of 0] by simp
      with set_parent_of_nth [OF t2, of n] Cons.prems(3,4) have "t2 ! n = t1 ! n" by simp
      moreover have "tbl' ! n = t2 ! n"
      proof (rule Cons.IH [OF rec2])
        fix i assume "i < length ys"
        then show "n \<notin> unat ` set (Children (ys ! i))"
          using Cons.prems(2) [of "Suc i"] by simp
      next
        show "n < length tbl" by (rule Cons.prems(3))
      next
        show "length t2 = length tbl"
          using set_parent_of_length [OF t2] Cons.prems(4) by simp
      qed
      ultimately show ?case by simp
    qed
    from set_parent_of_nth [OF t1 Cons.prems(2)] here have "t1 ! n = of_nat k" by simp
    with keep 0 show ?thesis by simp
  next
    case (Suc j')
    have "tbl' ! n = of_nat (Suc k + j')"
    proof (rule Cons.IH [OF rec])
      show "n < length t1" using len1 Cons.prems(2) by simp
      show "j' < length xs" using Cons.prems(3) Suc by simp
      show "n \<in> unat ` set (Children (xs ! j'))" using Cons.prems(4) Suc by simp
      fix i assume "i < length xs" "n \<in> unat ` set (Children (xs ! i))"
      with Cons.prems(5) [of "Suc i"] Suc show "i = j'" by simp
    qed
    with Suc show ?thesis by simp
  qed
qed

lemma build_ancestor_table_parent:
  assumes "build_ancestor_table (Nodes tr) = Return tbl" and "parents_of tr n = [p]"
    and "n < length (Nodes tr)"
  shows "tbl ! n = of_nat p"
proof -
  note ps = parents_of_single [OF assms(2)]
  from assms(1) have fill: "fill_ancestor_table (Nodes tr) 0 (replicate (length (Nodes tr)) 0) = Return tbl"
    by (simp add: build_ancestor_table_def)
  have "tbl ! n = of_nat (0 + p)"
  proof (rule fill_ancestor_table_nth [OF fill])
    show "n < length (replicate (length (Nodes tr)) (0 :: NodeID))" using assms(3) by simp
    show "p < length (Nodes tr)" using ps by simp
    show "n \<in> unat ` set (Children (Nodes tr ! p))" using ps by simp
    fix i assume "i < length (Nodes tr)" "n \<in> unat ` set (Children (Nodes tr ! i))"
    with ps show "i = p" by blast
  qed
  then show ?thesis by simp
qed

section \<open>Depth and ancestors in a valid tree\<close>

lemma children_in_boundsD:
  assumes "children_in_bounds tr" and "p < length (Nodes tr)"
    and "c \<in> set (Children (Nodes tr ! p))"
  shows "unat c < length (Nodes tr)"
proof -
  from assms(2) have "Nodes tr ! p \<in> set (Nodes tr)" by simp
  with assms(1,3) show ?thesis
    unfolding children_in_bounds_def list_all_iff by blast
qed

lemma root_not_child:
  assumes "unique_parent tr" and "p < length (Nodes tr)"
    and "c \<in> set (Children (Nodes tr ! p))"
  shows "unat c \<noteq> 0"
proof
  assume z: "unat c = 0"
  from assms(1) have "parents_of tr 0 = []" by (simp add: unique_parent_def)
  then have "p \<notin> set (parents_of tr 0)" by simp
  with assms(2) have "0 \<notin> unat ` set (Children (Nodes tr ! p))"
    by (simp add: parents_of_def)
  with assms(3) z show False by (metis imageI)
qed

lemma has_depth_bound:
  assumes "children_in_bounds tr" and "has_depth tr n d"
  shows "n < length (Nodes tr)"
  using assms(2)
proof (induction rule: has_depth.induct)
  case root
  then show ?case by simp
next
  case (child p d c)
  from children_in_boundsD [OF assms(1) child.hyps(2,3)] show ?case .
qed

lemma has_depth_zero: "has_depth tr n 0 \<Longrightarrow> n = 0"
  by (erule has_depth.cases) simp_all

lemma has_depth_root:
  assumes "unique_parent tr" and "has_depth tr 0 d"
  shows "d = 0"
proof (rule ccontr)
  assume "d \<noteq> 0"
  then obtain e where "d = Suc e" by (cases d) auto
  with assms(2) have "has_depth tr 0 (Suc e)" by simp
  then obtain p c where "p < length (Nodes tr)" "c \<in> set (Children (Nodes tr ! p))" "unat c = 0"
    by (auto elim: has_depth.cases)
  with root_not_child [OF assms(1)] show False by blast
qed

lemma has_depth_Suc:
  assumes "children_in_bounds tr" and "unique_parent tr" and "has_depth tr n (Suc d)"
  shows "\<exists>p. parents_of tr n = [p] \<and> has_depth tr p d"
proof -
  from assms(3) obtain p c where dp: "has_depth tr p d" and plt: "p < length (Nodes tr)"
    and c: "c \<in> set (Children (Nodes tr ! p))" and n: "n = unat c"
    by (auto elim: has_depth.cases)
  from root_not_child [OF assms(2) plt c] n have pos: "0 < n" by simp
  from children_in_boundsD [OF assms(1) plt c] n have lt: "n < length (Nodes tr)" by simp
  from unique_parent_single [OF assms(2) pos lt] obtain q where q: "parents_of tr n = [q]"
    by blast
  from parents_of_single [OF q] plt c n have "p = q" by blast
  with q dp show ?thesis by blast
qed

lemma has_depth_unique:
  assumes "children_in_bounds tr" and "unique_parent tr"
  shows "has_depth tr n d \<Longrightarrow> has_depth tr n d' \<Longrightarrow> d = d'"
proof (induction d arbitrary: n d')
  case 0
  from has_depth_zero [OF 0(1)] have "n = 0" .
  with 0(2) has_depth_root [OF assms(2)] show ?case by simp
next
  case (Suc d)
  from has_depth_Suc [OF assms Suc.prems(1)] obtain p where
    p: "parents_of tr n = [p]" "has_depth tr p d" by blast
  show ?case
  proof (cases d')
    case 0
    with Suc.prems(2) have "n = 0" by (simp add: has_depth_zero)
    with Suc.prems(1) has_depth_root [OF assms(2)] show ?thesis by blast
  next
    case (Suc e)
    with Suc.prems(2) has_depth_Suc [OF assms] obtain p' where
      p': "parents_of tr n = [p']" "has_depth tr p' e" by blast
    from p p' have "p' = p" by simp
    with Suc.IH [OF p(2)] p'(2) Suc show ?thesis by simp
  qed
qed

lemma ancestor_chain_last: "ancestor_chain tr n ps \<Longrightarrow> ps \<noteq> [] \<Longrightarrow> last ps = 0"
proof (induction ps arbitrary: n)
  case Nil
  then show ?case by simp
next
  case (Cons p ps)
  show ?case
  proof (cases ps)
    case Nil
    with Cons.prems show ?thesis by simp
  next
    case (Cons q qs)
    with Cons.prems Cons.IH [of p] show ?thesis by simp
  qed
qed

lemma ancestor_walk:
  assumes ib: "children_in_bounds tr" and up: "unique_parent tr"
    and tbl: "build_ancestor_table (Nodes tr) = Return tbl"
  shows "has_depth tr n d \<Longrightarrow>
     \<exists>as. ancestor_ids_loop tbl (of_nat n) acc = Some (Return (acc @ as))
        \<and> length as = d
        \<and> ancestor_chain tr n (map unat as)
        \<and> (\<forall>a\<in>set as. \<exists>e<d. has_depth tr (unat a) e)"
proof (induction d arbitrary: n acc)
  case 0
  from has_depth_zero [OF 0] have "n = 0" .
  then show ?case by (simp add: ancestor_ids_loop.simps)
next
  case (Suc d)
  from has_depth_Suc [OF ib up Suc.prems] obtain p where
    p: "parents_of tr n = [p]" and dp: "has_depth tr p d" by blast
  note ps = parents_of_single [OF p]
  from has_depth_bound [OF ib Suc.prems] have lt: "n < length (Nodes tr)" .
  have n0: "n \<noteq> 0"
  proof
    assume "n = 0"
    with Suc.prems has_depth_root [OF up] show False by blast
  qed
  from unique_parent_index [OF up lt] have un: "unat (of_nat n :: NodeID) = n" .
  with n0 have nz: "(of_nat n :: NodeID) \<noteq> 0" by auto
  from ps have plt: "p < length (Nodes tr)" by simp
  from unique_parent_index [OF up plt] have upn: "unat (of_nat p :: NodeID) = p" .
  from build_ancestor_table_Return [OF ib] tbl have len: "length tbl = length (Nodes tr)"
    by auto
  from build_ancestor_table_parent [OF tbl p lt] have slot: "tbl ! n = of_nat p" .
  from Suc.IH [OF dp, of "acc @ [of_nat p]"] obtain as where
    as: "ancestor_ids_loop tbl (of_nat p) (acc @ [of_nat p]) = Some (Return ((acc @ [of_nat p]) @ as))"
      "length as = d" "ancestor_chain tr p (map unat as)"
      "\<forall>a\<in>set as. \<exists>e<d. has_depth tr (unat a) e"
    by blast
  have step: "ancestor_ids_loop tbl (of_nat n) acc
      = ancestor_ids_loop tbl (of_nat p) (acc @ [of_nat p])"
    using nz un lt len slot by (subst ancestor_ids_loop.simps) simp
  have mem: "n \<in> set (map unat (Children (Nodes tr ! p)))" using ps by simp
  have "ancestor_ids_loop tbl (of_nat n) acc = Some (Return (acc @ (of_nat p # as)))"
    using step as(1) by simp
  moreover have "length (of_nat p # as) = Suc d" using as(2) by simp
  moreover have "ancestor_chain tr n (map unat (of_nat p # as))"
    using n0 plt mem as(3) upn by simp
  moreover have "\<forall>a\<in>set (of_nat p # as). \<exists>e<Suc d. has_depth tr (unat a) e"
  proof
    fix a assume "a \<in> set (of_nat p # as)"
    then consider "a = of_nat p" | "a \<in> set as" by auto
    then show "\<exists>e<Suc d. has_depth tr (unat a) e"
    proof cases
      case 1
      with upn dp show ?thesis by auto
    next
      case 2
      with as(4) obtain e where "e < d" "has_depth tr (unat a) e" by blast
      then show ?thesis by (intro exI [of _ e]) simp
    qed
  qed
  ultimately show ?case by blast
qed

lemma example_tree_valid: "valid_tree example_tree"
proof -
  have ne: "Nodes example_tree \<noteq> []" by (simp add: example_tree_def)
  have d0: "has_depth example_tree 0 0" by (rule has_depth.root [OF ne])
  have d1: "has_depth example_tree (unat (1 :: NodeID)) (Suc 0)"
    by (rule has_depth.child [OF d0]) (simp_all add: example_tree_def)
  have d2: "has_depth example_tree (unat (2 :: NodeID)) (Suc 0)"
    by (rule has_depth.child [OF d0]) (simp_all add: example_tree_def)
  from d1 have d1': "has_depth example_tree 1 (Suc 0)" by simp
  have d3: "has_depth example_tree (unat (3 :: NodeID)) (Suc (Suc 0))"
    by (rule has_depth.child [OF d1']) (simp_all add: example_tree_def)
  have len: "length (Nodes example_tree) = 4" by (simp add: example_tree_def)
  have "\<forall>n<length (Nodes example_tree). \<exists>d. has_depth example_tree n d"
  proof (intro allI impI)
    fix n assume "n < length (Nodes example_tree)"
    with len have "n = 0 \<or> n = 1 \<or> n = 2 \<or> n = 3" by auto
    with d0 d1 d2 d3 show "\<exists>d. has_depth example_tree n d" by auto
  qed
  moreover have "children_in_bounds example_tree"
    by (simp add: example_tree_def children_in_bounds_def)
  moreover have "unique_parent example_tree"
    by (simp add: unique_parent_def parents_of_def example_tree_def upt_conv_Cons)
  moreover have "list_all (\<lambda>n. distinct (Children n)) (Nodes example_tree)"
    by (simp add: example_tree_def)
  ultimately show ?thesis using ne by (simp add: valid_tree_def)
qed

text \<open>
  C5. In a valid tree (a node at index 0, child entries in range, the unique-parent
  invariant, every node reached from the root), for every in-bounds NodeID \<open>n\<close>,
  \<open>AncestorIDs n\<close> returns, with no error, the chain of proper ancestors of \<open>n\<close>: its
  first entry lists \<open>n\<close> as a child, each further entry lists the one before it, and the
  last entry is the root 0; \<open>n\<close> itself is not in it; and its length is the depth of \<open>n\<close>,
  the one distance of \<open>n\<close> from the root.
\<close>

theorem ancestor_ids_chain:
  assumes "valid_tree tr" and "unat nid < length (Nodes tr)"
  shows "\<exists>as. AncestorIDs (Some tr) nid = Some (Return as)
           \<and> ancestor_chain tr (unat nid) (map unat as)
           \<and> nid \<notin> set as
           \<and> has_depth tr (unat nid) (length as)
           \<and> (\<forall>d. has_depth tr (unat nid) d \<longrightarrow> d = length as)
           \<and> (as \<noteq> [] \<longrightarrow> last as = 0)"
proof -
  from assms(1) have ib: "children_in_bounds tr" and up: "unique_parent tr"
    and conn: "\<forall>n<length (Nodes tr). \<exists>d. has_depth tr n d"
    by (simp_all add: valid_tree_def)
  from build_ancestor_table_Return [OF ib] obtain tbl where
    tbl: "build_ancestor_table (Nodes tr) = Return tbl" by blast
  from conn assms(2) obtain d where d: "has_depth tr (unat nid) d" by blast
  from ancestor_walk [OF ib up tbl d, of "[]"] obtain as where
    as: "ancestor_ids_loop tbl (of_nat (unat nid)) [] = Some (Return as)"
      "length as = d" "ancestor_chain tr (unat nid) (map unat as)"
      "\<forall>a\<in>set as. \<exists>e<d. has_depth tr (unat a) e"
    by auto
  have res: "AncestorIDs (Some tr) nid = Some (Return as)"
    using assms(2) tbl as(1) by (simp add: AncestorIDs_def)
  have notin: "nid \<notin> set as"
  proof
    assume "nid \<in> set as"
    with as(4) obtain e where "e < d" "has_depth tr (unat nid) e" by blast
    with has_depth_unique [OF ib up d] show False by blast
  qed
  have uniq: "\<forall>d'. has_depth tr (unat nid) d' \<longrightarrow> d' = length as"
    using has_depth_unique [OF ib up _ d] as(2) by blast
  have lst: "as \<noteq> [] \<longrightarrow> last as = 0"
  proof
    assume ne: "as \<noteq> []"
    with ancestor_chain_last [OF as(3)] have "last (map unat as) = 0" by simp
    with ne have "unat (last as) = 0" by (simp add: last_map)
    then show "last as = 0" by (simp add: unat_eq_zero)
  qed
  from res as(3) notin d as(2) uniq lst show ?thesis by blast
qed

theorem ancestor_ids_chain_witness:
  "valid_tree example_tree \<and> unat (3 :: NodeID) < length (Nodes example_tree)
   \<and> AncestorIDs (Some example_tree) 3 = Some (Return [1, 0])
   \<and> has_depth example_tree 3 2"
proof -
  have lt: "unat (3 :: NodeID) < length (Nodes example_tree)" by (simp add: example_tree_def)
  have ev: "AncestorIDs (Some example_tree) 3 = Some (Return [1, 0])"
    by (simp add: AncestorIDs_def example_tree_def build_ancestor_table_def
        ancestor_ids_loop.simps)
  from ancestor_ids_chain [OF example_tree_valid lt] obtain as where
    as: "AncestorIDs (Some example_tree) 3 = Some (Return as)"
    "has_depth example_tree (unat (3 :: NodeID)) (length as)" by blast
  from as(1) ev have "as = [1, 0]" by simp
  then have "length as = 2" by simp
  moreover have "unat (3 :: NodeID) = 3" by simp
  ultimately have "has_depth example_tree 3 2" using as(2) by simp
  with example_tree_valid lt ev show ?thesis by (intro conjI)
qed

section \<open>Subtrees of a valid tree\<close>

lemma has_depth_ancestors:
  assumes "children_in_bounds tr" and "has_depth tr n d"
  shows "k \<le> d \<Longrightarrow> \<exists>m<length (Nodes tr). has_depth tr m k"
  using assms(2)
proof (induction arbitrary: k rule: has_depth.induct)
  case root
  then have "k = 0" by simp
  moreover from root have "has_depth tr 0 0" by (intro has_depth.root)
  moreover from root have "0 < length (Nodes tr)" by simp
  ultimately show ?case by blast
next
  case (child p d c)
  show ?case
  proof (cases "k = Suc d")
    case True
    have "has_depth tr (unat c) (Suc d)" by (rule has_depth.child [OF child.hyps])
    moreover have "unat c < length (Nodes tr)"
      by (rule children_in_boundsD [OF assms(1) child.hyps(2,3)])
    ultimately show ?thesis using True by blast
  next
    case False
    with child.prems have "k \<le> d" by simp
    then show ?thesis by (rule child.IH)
  qed
qed

lemma has_depth_less:
  assumes "children_in_bounds tr" and "unique_parent tr" and "has_depth tr n d"
  shows "d < length (Nodes tr)"
proof -
  have "\<forall>k. \<exists>m. k \<le> d \<longrightarrow> m < length (Nodes tr) \<and> has_depth tr m k"
    using has_depth_ancestors [OF assms(1,3)] by blast
  then obtain f where
    f: "\<forall>k. k \<le> d \<longrightarrow> f k < length (Nodes tr) \<and> has_depth tr (f k) k"
    using choice [of "\<lambda>k m. k \<le> d \<longrightarrow> m < length (Nodes tr) \<and> has_depth tr m k"] by blast
  have "inj_on f {..d}"
  proof (rule inj_onI)
    fix i j assume "i \<in> {..d}" "j \<in> {..d}" "f i = f j"
    with f have "has_depth tr (f i) i" "has_depth tr (f i) j" by auto
    then show "i = j" by (rule has_depth_unique [OF assms(1,2)])
  qed
  moreover have "f ` {..d} \<subseteq> {..<length (Nodes tr)}" using f by auto
  ultimately have "card {..d} \<le> card {..<length (Nodes tr)}"
    by (intro card_inj_on_le) simp_all
  then show ?thesis by simp
qed

lemma in_subtree_bound:
  assumes "children_in_bounds tr" and "in_subtree tr n m"
  shows "m < length (Nodes tr)"
  using assms(2)
proof (induction rule: in_subtree.induct)
  case self
  then show ?case .
next
  case (child p c)
  show ?case by (rule children_in_boundsD [OF assms(1) child.hyps(2,3)])
qed

lemma in_subtree_leaf:
  assumes "Children (Nodes tr ! n) = []" and "in_subtree tr n m"
  shows "m = n"
  using assms(2)
proof (induction rule: in_subtree.induct)
  case self
  show ?case by simp
next
  case (child p c)
  with assms(1) show ?case by simp
qed

lemma in_subtree_below:
  assumes "n < length (Nodes tr)" and "c \<in> set (Children (Nodes tr ! n))"
    and "in_subtree tr (unat c) m"
  shows "in_subtree tr n m"
  using assms(3)
proof (induction rule: in_subtree.induct)
  case self
  show ?case by (rule in_subtree.child [OF in_subtree.self [OF assms(1)] assms(1,2)])
next
  case (child p c')
  show ?case by (rule in_subtree.child [OF child.IH child.hyps(2,3)])
qed

lemma in_subtree_split:
  assumes "children_in_bounds tr" and "in_subtree tr n m"
  shows "m = n \<or> (\<exists>c\<in>set (Children (Nodes tr ! n)). in_subtree tr (unat c) m)"
  using assms(2)
proof (induction rule: in_subtree.induct)
  case self
  show ?case by simp
next
  case (child p c)
  from child.IH show ?case
  proof
    assume "p = n"
    with child.hyps(2,3) have cn: "c \<in> set (Children (Nodes tr ! n))" by simp
    from children_in_boundsD [OF assms(1) child.hyps(2,3)]
    have "in_subtree tr (unat c) (unat c)" by (rule in_subtree.self)
    with cn show ?thesis by blast
  next
    assume "\<exists>c'\<in>set (Children (Nodes tr ! n)). in_subtree tr (unat c') p"
    then obtain c' where c': "c' \<in> set (Children (Nodes tr ! n))" "in_subtree tr (unat c') p"
      by blast
    from in_subtree.child [OF c'(2) child.hyps(2,3)] c'(1) show ?thesis by blast
  qed
qed

lemma in_subtree_depth:
  assumes "has_depth tr a da" and "in_subtree tr a m"
  shows "\<exists>k. has_depth tr m (da + k) \<and> (k = 0 \<longrightarrow> m = a)"
  using assms(2)
proof (induction rule: in_subtree.induct)
  case self
  from assms(1) have "has_depth tr a (da + 0) \<and> (0 = (0::nat) \<longrightarrow> a = a)" by simp
  then show ?case by blast
next
  case (child p c)
  from child.IH obtain k where "has_depth tr p (da + k)" by blast
  from has_depth.child [OF this child.hyps(2,3)]
  have "has_depth tr (unat c) (da + Suc k) \<and> (Suc k = 0 \<longrightarrow> unat c = a)" by simp
  then show ?case by blast
qed

lemma in_subtree_parent:
  assumes "in_subtree tr a m" and "m \<noteq> a" and "parents_of tr m = [q]"
  shows "in_subtree tr a q"
proof -
  from assms(1,2) obtain p c where sp: "in_subtree tr a p" and plt: "p < length (Nodes tr)"
    and c: "c \<in> set (Children (Nodes tr ! p))" and m: "m = unat c"
    by (auto elim: in_subtree.cases)
  from c m have "m \<in> unat ` set (Children (Nodes tr ! p))" by (rule_tac image_eqI)
  with parents_of_single [OF assms(3)] plt have "p = q" by simp
  with sp show ?thesis by simp
qed

text \<open>Two nodes at the same depth have no node in common below them.\<close>

lemma subtrees_disjoint:
  assumes ib: "children_in_bounds tr" and up: "unique_parent tr"
    and da: "has_depth tr a d" and db: "has_depth tr b d"
  shows "has_depth tr m (d + k) \<Longrightarrow> in_subtree tr a m \<Longrightarrow> in_subtree tr b m \<Longrightarrow> a = b"
proof (induction k arbitrary: m)
  case 0
  from in_subtree_depth [OF da 0(2)] obtain ka where
    ka: "has_depth tr m (d + ka)" "ka = 0 \<longrightarrow> m = a" by blast
  from in_subtree_depth [OF db 0(3)] obtain kb where
    kb: "has_depth tr m (d + kb)" "kb = 0 \<longrightarrow> m = b" by blast
  from has_depth_unique [OF ib up 0(1) ka(1)] have "ka = 0" by simp
  moreover from has_depth_unique [OF ib up 0(1) kb(1)] have "kb = 0" by simp
  ultimately show ?case using ka(2) kb(2) by simp
next
  case (Suc k)
  from Suc.prems(1) have dm: "has_depth tr m (Suc (d + k))" by simp
  from has_depth_Suc [OF ib up dm] obtain q where
    q: "parents_of tr m = [q]" "has_depth tr q (d + k)" by blast
  have "m \<noteq> a"
  proof
    assume "m = a"
    with da has_depth_unique [OF ib up dm] show False by fastforce
  qed
  moreover have "m \<noteq> b"
  proof
    assume "m = b"
    with db has_depth_unique [OF ib up dm] show False by fastforce
  qed
  ultimately have "in_subtree tr a q" "in_subtree tr b q"
    using in_subtree_parent [OF Suc.prems(2) _ q(1)] in_subtree_parent [OF Suc.prems(3) _ q(1)]
    by blast+
  with Suc.IH [OF q(2)] show ?case by blast
qed

lemma leaf_sets_disjoint:
  assumes ib: "children_in_bounds tr" and up: "unique_parent tr"
    and da: "has_depth tr a d" and db: "has_depth tr b d" and ne: "a \<noteq> b"
  shows "leaf_set tr a \<inter> leaf_set tr b = {}"
proof (rule ccontr)
  assume "leaf_set tr a \<inter> leaf_set tr b \<noteq> {}"
  then obtain m where m: "in_subtree tr a m" "in_subtree tr b m"
    by (auto simp: leaf_set_def)
  from in_subtree_depth [OF da m(1)] obtain k where "has_depth tr m (d + k)" by blast
  from subtrees_disjoint [OF ib up da db this m] ne show False by simp
qed

lemma leaf_set_leaf:
  assumes "n < length (Nodes tr)" and "Children (Nodes tr ! n) = []"
  shows "leaf_set tr n = {n}"
  using assms in_subtree_leaf [OF assms(2)] in_subtree.self [OF assms(1)]
  by (auto simp: leaf_set_def)

lemma leaf_set_inner:
  assumes "children_in_bounds tr" and "n < length (Nodes tr)"
    and "Children (Nodes tr ! n) \<noteq> []"
  shows "leaf_set tr n = (\<Union>c\<in>set (Children (Nodes tr ! n)). leaf_set tr (unat c))"
proof (intro set_eqI iffI)
  fix m assume "m \<in> leaf_set tr n"
  then have sub: "in_subtree tr n m" and leaf: "Children (Nodes tr ! m) = []"
    by (simp_all add: leaf_set_def)
  from leaf assms(3) have "m \<noteq> n" by auto
  with in_subtree_split [OF assms(1) sub] obtain c where
    "c \<in> set (Children (Nodes tr ! n))" "in_subtree tr (unat c) m" by blast
  with leaf show "m \<in> (\<Union>c\<in>set (Children (Nodes tr ! n)). leaf_set tr (unat c))"
    by (auto simp: leaf_set_def)
next
  fix m assume "m \<in> (\<Union>c\<in>set (Children (Nodes tr ! n)). leaf_set tr (unat c))"
  then obtain c where c: "c \<in> set (Children (Nodes tr ! n))" "in_subtree tr (unat c) m"
    and leaf: "Children (Nodes tr ! m) = []"
    by (auto simp: leaf_set_def)
  from in_subtree_below [OF assms(2) c] leaf show "m \<in> leaf_set tr n"
    by (simp add: leaf_set_def)
qed

section \<open>Leaves of a subtree\<close>

lemma push_children_Return:
  "\<forall>c\<in>set cs. unat c < length nodes \<Longrightarrow>
     push_children nodes st cs = Return (st @ map (\<lambda>c. (c, nodes ! unat c)) cs)"
  by (induction cs arbitrary: st) simp_all

lemma collects_leaf:
  assumes "unat c < length (Nodes tr)" and "Children (Nodes tr ! unat c) = []"
  shows "collects tr c [c]"
proof -
  have "\<And>st acc. leaf_ids_loop (Nodes tr) (st @ [(c, Nodes tr ! unat c)]) acc
      = leaf_ids_loop (Nodes tr) st (acc @ [c])"
    using assms(2) by (subst leaf_ids_loop.simps) simp
  moreover from leaf_set_leaf [OF assms] have "unat ` set [c] = leaf_set tr (unat c)" by simp
  ultimately show ?thesis by (simp add: collects_def)
qed

lemma collects_children:
  assumes "\<forall>c\<in>set cs. \<exists>ls. collects tr c ls" and "distinct cs"
    and "\<forall>c\<in>set cs. \<forall>c'\<in>set cs. c \<noteq> c'
           \<longrightarrow> leaf_set tr (unat c) \<inter> leaf_set tr (unat c') = {}"
  shows "\<exists>ls. (\<forall>st acc. leaf_ids_loop (Nodes tr) (st @ map (\<lambda>c. (c, Nodes tr ! unat c)) cs) acc
                   = leaf_ids_loop (Nodes tr) st (acc @ ls))
            \<and> distinct ls
            \<and> unat ` set ls = (\<Union>c\<in>set cs. leaf_set tr (unat c))"
  using assms
proof (induction cs rule: rev_induct)
  case Nil
  have "(\<forall>st acc. leaf_ids_loop (Nodes tr) (st @ map (\<lambda>c. (c, Nodes tr ! unat c)) []) acc
                   = leaf_ids_loop (Nodes tr) st (acc @ []))
            \<and> distinct ([] :: NodeID list)
            \<and> unat ` set ([] :: NodeID list) = (\<Union>c\<in>set []. leaf_set tr (unat c))"
    by simp
  then show ?case by blast
next
  case (snoc c cs)
  from snoc.prems(1) obtain lc where lc: "collects tr c lc" by auto
  have "\<exists>ls. (\<forall>st acc. leaf_ids_loop (Nodes tr) (st @ map (\<lambda>c. (c, Nodes tr ! unat c)) cs) acc
                   = leaf_ids_loop (Nodes tr) st (acc @ ls))
            \<and> distinct ls
            \<and> unat ` set ls = (\<Union>c\<in>set cs. leaf_set tr (unat c))"
  proof (rule snoc.IH)
    show "\<forall>c\<in>set cs. \<exists>ls. collects tr c ls" using snoc.prems(1) by simp
    show "distinct cs" using snoc.prems(2) by simp
    show "\<forall>c\<in>set cs. \<forall>c'\<in>set cs. c \<noteq> c'
           \<longrightarrow> leaf_set tr (unat c) \<inter> leaf_set tr (unat c') = {}"
      using snoc.prems(3) by simp
  qed
  then obtain ls where
    run: "\<And>st acc. leaf_ids_loop (Nodes tr) (st @ map (\<lambda>c. (c, Nodes tr ! unat c)) cs) acc
                   = leaf_ids_loop (Nodes tr) st (acc @ ls)"
    and dls: "distinct ls"
    and sls: "unat ` set ls = (\<Union>c\<in>set cs. leaf_set tr (unat c))"
    by blast
  from lc have
    runc: "\<And>st acc. leaf_ids_loop (Nodes tr) (st @ [(c, Nodes tr ! unat c)]) acc
                   = leaf_ids_loop (Nodes tr) st (acc @ lc)"
    and dlc: "distinct lc"
    and slc: "unat ` set lc = leaf_set tr (unat c)"
    by (simp_all add: collects_def)
  have all: "\<And>st acc. leaf_ids_loop (Nodes tr)
        (st @ map (\<lambda>c. (c, Nodes tr ! unat c)) (cs @ [c])) acc
      = leaf_ids_loop (Nodes tr) st (acc @ (lc @ ls))"
  proof -
    fix st acc
    have "leaf_ids_loop (Nodes tr) (st @ map (\<lambda>c. (c, Nodes tr ! unat c)) (cs @ [c])) acc
        = leaf_ids_loop (Nodes tr)
            ((st @ map (\<lambda>c. (c, Nodes tr ! unat c)) cs) @ [(c, Nodes tr ! unat c)]) acc"
      by simp
    also have "\<dots> = leaf_ids_loop (Nodes tr) (st @ map (\<lambda>c. (c, Nodes tr ! unat c)) cs) (acc @ lc)"
      by (rule runc)
    also have "\<dots> = leaf_ids_loop (Nodes tr) st ((acc @ lc) @ ls)" by (rule run)
    finally show "leaf_ids_loop (Nodes tr)
        (st @ map (\<lambda>c. (c, Nodes tr ! unat c)) (cs @ [c])) acc
      = leaf_ids_loop (Nodes tr) st (acc @ (lc @ ls))" by simp
  qed
  have disj: "leaf_set tr (unat c) \<inter> (\<Union>c'\<in>set cs. leaf_set tr (unat c')) = {}"
  proof -
    have "\<And>c'. c' \<in> set cs \<Longrightarrow> leaf_set tr (unat c) \<inter> leaf_set tr (unat c') = {}"
    proof -
      fix c' assume c': "c' \<in> set cs"
      with snoc.prems(2) have "c \<noteq> c'" by auto
      with snoc.prems(3) c' show "leaf_set tr (unat c) \<inter> leaf_set tr (unat c') = {}" by simp
    qed
    then show ?thesis by blast
  qed
  have "set lc \<inter> set ls = {}"
  proof (rule ccontr)
    assume "set lc \<inter> set ls \<noteq> {}"
    then obtain x where "x \<in> set lc" "x \<in> set ls" by blast
    then have "unat x \<in> unat ` set lc" "unat x \<in> unat ` set ls" by blast+
    with slc sls disj show False by blast
  qed
  with dlc dls have d: "distinct (lc @ ls)" by simp
  have s: "unat ` set (lc @ ls) = (\<Union>c\<in>set (cs @ [c]). leaf_set tr (unat c))"
    using slc sls by (simp add: image_Un Un_commute)
  from all d s show ?case by blast
qed

lemma collects_node:
  assumes ib: "children_in_bounds tr" and up: "unique_parent tr"
    and dc: "list_all (\<lambda>n. distinct (Children n)) (Nodes tr)"
  shows "has_depth tr (unat c) d \<Longrightarrow> \<exists>ls. collects tr c ls"
proof (induction "length (Nodes tr) - d" arbitrary: c d rule: less_induct)
  case less
  from has_depth_bound [OF ib less.prems] have lt: "unat c < length (Nodes tr)" .
  from has_depth_less [OF ib up less.prems] have dlt: "d < length (Nodes tr)" .
  show ?case
  proof (cases "Children (Nodes tr ! unat c) = []")
    case True
    from collects_leaf [OF lt True] show ?thesis by blast
  next
    case False
    let ?cs = "Children (Nodes tr ! unat c)"
    have inb: "\<forall>c'\<in>set ?cs. unat c' < length (Nodes tr)"
      using children_in_boundsD [OF ib lt] by blast
    have deep: "\<And>c'. c' \<in> set ?cs \<Longrightarrow> has_depth tr (unat c') (Suc d)"
      by (rule has_depth.child [OF less.prems lt])
    have each: "\<forall>c'\<in>set ?cs. \<exists>ls. collects tr c' ls"
    proof
      fix c' assume "c' \<in> set ?cs"
      from deep [OF this] have dd: "has_depth tr (unat c') (Suc d)" .
      from dlt have "length (Nodes tr) - Suc d < length (Nodes tr) - d" by simp
      from less.hyps [OF this dd] show "\<exists>ls. collects tr c' ls" .
    qed
    from lt have "Nodes tr ! unat c \<in> set (Nodes tr)" by simp
    with dc have dist: "distinct ?cs" by (simp add: list_all_iff)
    have disj: "\<forall>a\<in>set ?cs. \<forall>b\<in>set ?cs. a \<noteq> b
           \<longrightarrow> leaf_set tr (unat a) \<inter> leaf_set tr (unat b) = {}"
    proof (intro ballI impI)
      fix a b assume a: "a \<in> set ?cs" and b: "b \<in> set ?cs" and "a \<noteq> b"
      then have "unat a \<noteq> unat b" by (simp add: word_unat_eq_iff)
      from leaf_sets_disjoint [OF ib up deep [OF a] deep [OF b] this]
      show "leaf_set tr (unat a) \<inter> leaf_set tr (unat b) = {}" .
    qed
    from collects_children [OF each dist disj] obtain ls where
      run: "\<And>st acc. leaf_ids_loop (Nodes tr) (st @ map (\<lambda>c. (c, Nodes tr ! unat c)) ?cs) acc
                   = leaf_ids_loop (Nodes tr) st (acc @ ls)"
      and dls: "distinct ls"
      and sls: "unat ` set ls = (\<Union>c\<in>set ?cs. leaf_set tr (unat c))"
      by blast
    have "\<And>st acc. leaf_ids_loop (Nodes tr) (st @ [(c, Nodes tr ! unat c)]) acc
        = leaf_ids_loop (Nodes tr) st (acc @ ls)"
    proof -
      fix st acc
      have "leaf_ids_loop (Nodes tr) (st @ [(c, Nodes tr ! unat c)]) acc
          = leaf_ids_loop (Nodes tr) (st @ map (\<lambda>c. (c, Nodes tr ! unat c)) ?cs) acc"
        using False push_children_Return [OF inb, of st]
        by (subst leaf_ids_loop.simps) simp
      with run show "leaf_ids_loop (Nodes tr) (st @ [(c, Nodes tr ! unat c)]) acc
        = leaf_ids_loop (Nodes tr) st (acc @ ls)" by simp
    qed
    moreover from leaf_set_inner [OF ib lt False] sls
    have "unat ` set ls = leaf_set tr (unat c)" by simp
    ultimately have "collects tr c ls" using dls by (simp add: collects_def)
    then show ?thesis by blast
  qed
qed

text \<open>
  C6. In a valid tree, for every in-bounds NodeID \<open>n\<close>, \<open>LeafDescendantIDs n\<close> returns
  with no error; every NodeID it returns is a node with an empty child list; no NodeID is
  returned twice; and the nodes returned are exactly the nodes of the subtree rooted at
  \<open>n\<close> that have an empty child list. So every leaf of the subtree appears exactly once
  and no other node appears.
\<close>

theorem leaf_descendant_ids:
  assumes "valid_tree tr" and "unat nid < length (Nodes tr)"
  shows "\<exists>ls. LeafDescendantIDs (Some tr) nid = Some (Return ls)
           \<and> (\<forall>l\<in>set ls. unat l < length (Nodes tr) \<and> Children (Nodes tr ! unat l) = [])
           \<and> distinct ls
           \<and> unat ` set ls
               = {m. in_subtree tr (unat nid) m \<and> Children (Nodes tr ! m) = []}"
proof -
  from assms(1) have ib: "children_in_bounds tr" and up: "unique_parent tr"
    and dc: "list_all (\<lambda>n. distinct (Children n)) (Nodes tr)"
    and conn: "\<forall>n<length (Nodes tr). \<exists>d. has_depth tr n d"
    by (simp_all add: valid_tree_def)
  from conn assms(2) obtain d where "has_depth tr (unat nid) d" by blast
  from collects_node [OF ib up dc this] obtain ls where ls: "collects tr nid ls" by blast
  then have "leaf_ids_loop (Nodes tr) ([] @ [(nid, Nodes tr ! unat nid)]) []
      = leaf_ids_loop (Nodes tr) [] ([] @ ls)"
    unfolding collects_def by blast
  then have "leaf_ids_loop (Nodes tr) [(nid, Nodes tr ! unat nid)] [] = Some (Return ls)"
    by (simp add: leaf_ids_loop.simps [of _ "[]"])
  with assms(2) have res: "LeafDescendantIDs (Some tr) nid = Some (Return ls)"
    by (simp add: LeafDescendantIDs_def)
  from ls have dls: "distinct ls" and sls: "unat ` set ls = leaf_set tr (unat nid)"
    by (simp_all add: collects_def)
  have leaves: "\<forall>l\<in>set ls. unat l < length (Nodes tr) \<and> Children (Nodes tr ! unat l) = []"
  proof
    fix l assume "l \<in> set ls"
    then have "unat l \<in> leaf_set tr (unat nid)" using sls by blast
    then have "in_subtree tr (unat nid) (unat l)" "Children (Nodes tr ! unat l) = []"
      by (simp_all add: leaf_set_def)
    with in_subtree_bound [OF ib]
    show "unat l < length (Nodes tr) \<and> Children (Nodes tr ! unat l) = []" by blast
  qed
  from res leaves dls sls show ?thesis by (simp add: leaf_set_def)
qed

theorem leaf_descendant_ids_witness:
  "valid_tree example_tree \<and> unat (0 :: NodeID) < length (Nodes example_tree)
   \<and> LeafDescendantIDs (Some example_tree) 0 = Some (Return [2, 3])
   \<and> unat ` set [2, 3 :: NodeID]
       = {m. in_subtree example_tree 0 m \<and> Children (Nodes example_tree ! m) = []}"
proof -
  have lt: "unat (0 :: NodeID) < length (Nodes example_tree)" by (simp add: example_tree_def)
  have ev: "LeafDescendantIDs (Some example_tree) 0 = Some (Return [2, 3])"
    by (simp add: LeafDescendantIDs_def example_tree_def leaf_ids_loop.simps)
  from leaf_descendant_ids [OF example_tree_valid lt] obtain ls where
    ls: "LeafDescendantIDs (Some example_tree) 0 = Some (Return ls)"
    "unat ` set ls
       = {m. in_subtree example_tree (unat (0 :: NodeID)) m
             \<and> Children (Nodes example_tree ! m) = []}" by blast
  from ls(1) ev have "ls = [2, 3]" by simp
  with ls(2) have "unat ` set [2, 3 :: NodeID]
       = {m. in_subtree example_tree 0 m \<and> Children (Nodes example_tree ! m) = []}"
    by simp
  with example_tree_valid lt ev show ?thesis by (intro conjI)
qed

section \<open>Parsing the enumerations\<close>

text \<open>
  C7. \<open>ParseProcessingKind\<close> compares the lower-cased input: every casing of
  \<open>package\<close>, \<open>numa_node\<close>, \<open>numanode\<close>, \<open>core\<close> and \<open>thread\<close> is accepted, both
  spellings of the NUMA node give \<open>NUMANode\<close>, and \<open>bogus\<close> fails. \<open>ParseCacheLevel\<close>
  compares the input as it is: it succeeds on exactly the five tokens \<open>L1\<close> to \<open>L5\<close>, so
  \<open>L1\<close> succeeds and \<open>l1\<close> fails.
\<close>

theorem parse_enumerations:
  "(ToLower str = ''numa_node'' \<or> ToLower str = ''numanode''
      \<longrightarrow> ParseProcessingKind str = Inr NUMANode)
   \<and> (ToLower str = ''package'' \<longrightarrow> ParseProcessingKind str = Inr Package)
   \<and> (ToLower str = ''core'' \<longrightarrow> ParseProcessingKind str = Inr Core)
   \<and> (ToLower str = ''thread'' \<longrightarrow> ParseProcessingKind str = Inr Thread)
   \<and> ParseProcessingKind ''NUMA_NODE'' = Inr NUMANode
   \<and> ParseProcessingKind ''numanode'' = Inr NUMANode
   \<and> ParseProcessingKind ''bogus'' = Inl (UnknownProcessingKindError ''bogus'')
   \<and> ((\<exists>l. ParseCacheLevel level = Inr l) = (level \<in> {''L1'', ''L2'', ''L3'', ''L4'', ''L5''}))
   \<and> ParseCacheLevel ''L1'' = Inr L1
   \<and> ParseCacheLevel ''l1'' = Inl (UnknownCacheLevelError ''l1'')"
  by (simp add: ParseProcessingKind_def ParseCacheLevel_def ToLower_def lower_char_def)

theorem parse_enumerations_witness:
  "ToLower ''NuMa_NoDe'' = ''numa_node''
   \<and> ParseProcessingKind ''NuMa_NoDe'' = Inr NUMANode
   \<and> (\<exists>l. ParseCacheLevel ''L3'' = Inr l)"
proof -
  have low: "ToLower ''NuMa_NoDe'' = ''numa_node''"
    by (simp add: ToLower_def lower_char_def)
  from parse_enumerations [of "''NuMa_NoDe''" "''L3''"] low show ?thesis by simp
qed

section \<open>Decoding an element\<close>

lemma unmarshal_Processing_ok:
  assumes "unmarshal_Processing e c = (e', None)"
  shows "\<exists>p. e' = e\<lparr>Processing := Some p\<rparr> \<and> Kind p \<noteq> UnknownProcessingKind"
  using assms
  by (auto simp: unmarshal_Processing_def ParseProcessingKind_def
      split: json.splits option.splits sum.splits if_splits)

lemma unmarshal_Cache_ok:
  assumes "unmarshal_Cache e c = (e', None)"
  shows "\<exists>c a. e' = e\<lparr>Cache := Some c\<rparr> \<and> Level c \<noteq> UnknownCacheLevel \<and> Attributes c = Some a"
  using assms
  by (auto simp: unmarshal_Cache_def ParseCacheLevel_def
      split: json.splits option.splits sum.splits if_splits)

text \<open>
  C2 (as amended). The root is recognised by a case-insensitive prefix match on the nine
  bytes \<open>"machine"\<close>, both quotes included: every input that, lowered, starts with them
  decodes as \<open>Root\<close> (both tag pointers nil) with no error, whatever follows the closing
  quote and whatever the receiver held; so \<open>"MACHINE"\<close> decodes as \<open>Root\<close>.
\<close>

theorem root_prefix_decodes_as_root:
  assumes \<open>prefix ''"machine"'' (ToLower data)\<close>
  shows "UnmarshalJSON e data = (\<lparr>Processing = None, Cache = None\<rparr>, None)
         \<and> IsRoot (fst (UnmarshalJSON e data))"
  using assms by (simp add: UnmarshalJSON_def IsRoot_def)

theorem root_prefix_decodes_as_root_witness:
  \<open>prefix ''"machine"'' (ToLower ''"MACHINE"'')
   \<and> UnmarshalJSON core7 ''"MACHINE"'' = (machine, None)
   \<and> prefix ''"machine"'' (ToLower ''"Machine"_extra'')
   \<and> UnmarshalJSON core7 ''"Machine"_extra'' = (machine, None)\<close>
proof -
  have p1: \<open>prefix ''"machine"'' (ToLower ''"MACHINE"'')\<close>
    by (simp add: ToLower_def lower_char_def)
  have p2: \<open>prefix ''"machine"'' (ToLower ''"Machine"_extra'')\<close>
    by (simp add: ToLower_def lower_char_def)
  from root_prefix_decodes_as_root [OF p1, of core7]
    root_prefix_decodes_as_root [OF p2, of core7] p1 p2
  show ?thesis by (simp add: machine_def)
qed

text \<open>
  C2 as stated fails on its own example: in \<open>"machine_extra"\<close> the byte after
  \<open>"machine\<close> is not the closing quote, so the prefix does not match; the input is then
  read as JSON, is a string and not an object, and decoding fails.
\<close>

theorem machine_extra_counterexample:
  \<open>\<not> prefix ''"machine"'' (ToLower ''"machine_extra"'')
   \<and> UnmarshalJSON machine ''"machine_extra"'' = (machine, Some FailedUnmarshalElement)\<close>
  by code_simp

text \<open>
  C3 (as amended). For every input that is not taken for the root: decoding succeeds only
  if the input is a JSON object that holds the key \<open>processing\<close> or the key \<open>cache\<close>; an
  object with neither fails; an object with \<open>processing\<close> is decoded from that member
  alone, whether or not \<open>cache\<close> is there too, and on success the element is a
  \<open>Processing\<close>; an object with \<open>cache\<close> and no \<open>processing\<close> is decoded from the
  \<open>cache\<close> member, and on success the element is a \<open>Cache\<close>.
\<close>

theorem element_keys:
  assumes \<open>\<not> prefix ''"machine"'' (ToLower data)\<close>
  shows "(snd (UnmarshalJSON e data) = None \<longrightarrow>
            (\<exists>m. json_Unmarshal data = Inr (JObject m)
               \<and> (lookup m ''processing'' \<noteq> None \<or> lookup m ''cache'' \<noteq> None)))
       \<and> (json_Unmarshal data = Inr (JObject m) \<and> lookup m ''processing'' = None
            \<and> lookup m ''cache'' = None
          \<longrightarrow> UnmarshalJSON e data = (e, Some FailedUnmarshalElement))
       \<and> (json_Unmarshal data = Inr (JObject m) \<and> lookup m ''processing'' = Some c
          \<longrightarrow> UnmarshalJSON e data = unmarshal_Processing (e\<lparr>Cache := None\<rparr>) c
              \<and> (snd (UnmarshalJSON e data) = None \<longrightarrow> IsProcessing (fst (UnmarshalJSON e data))))
       \<and> (json_Unmarshal data = Inr (JObject m) \<and> lookup m ''processing'' = None
            \<and> lookup m ''cache'' = Some c
          \<longrightarrow> UnmarshalJSON e data = unmarshal_Cache (e\<lparr>Processing := None\<rparr>) c
              \<and> (snd (UnmarshalJSON e data) = None \<longrightarrow> IsCache (fst (UnmarshalJSON e data))))"
proof (intro conjI impI)
  assume "snd (UnmarshalJSON e data) = None"
  with assms show "\<exists>m. json_Unmarshal data = Inr (JObject m)
               \<and> (lookup m ''processing'' \<noteq> None \<or> lookup m ''cache'' \<noteq> None)"
    by (auto simp: UnmarshalJSON_def split: sum.splits json.splits option.splits)
next
  assume "json_Unmarshal data = Inr (JObject m) \<and> lookup m ''processing'' = None
            \<and> lookup m ''cache'' = None"
  with assms show "UnmarshalJSON e data = (e, Some FailedUnmarshalElement)"
    by (simp add: UnmarshalJSON_def)
next
  assume a: "json_Unmarshal data = Inr (JObject m) \<and> lookup m ''processing'' = Some c"
  with assms show eq: "UnmarshalJSON e data = unmarshal_Processing (e\<lparr>Cache := None\<rparr>) c"
    by (simp add: UnmarshalJSON_def)
  assume "snd (UnmarshalJSON e data) = None"
  with eq obtain e' where "unmarshal_Processing (e\<lparr>Cache := None\<rparr>) c = (e', None)"
    by (cases "unmarshal_Processing (e\<lparr>Cache := None\<rparr>) c") auto
  from unmarshal_Processing_ok [OF this] this eq
  show "IsProcessing (fst (UnmarshalJSON e data))"
    by (auto simp: IsProcessing_def)
next
  assume a: "json_Unmarshal data = Inr (JObject m) \<and> lookup m ''processing'' = None
            \<and> lookup m ''cache'' = Some c"
  with assms show eq: "UnmarshalJSON e data = unmarshal_Cache (e\<lparr>Processing := None\<rparr>) c"
    by (simp add: UnmarshalJSON_def)
  assume "snd (UnmarshalJSON e data) = None"
  with eq obtain e' where "unmarshal_Cache (e\<lparr>Processing := None\<rparr>) c = (e', None)"
    by (cases "unmarshal_Cache (e\<lparr>Processing := None\<rparr>) c") auto
  from unmarshal_Cache_ok [OF this] this eq
  show "IsCache (fst (UnmarshalJSON e data))"
    by (auto simp: IsCache_def)
qed

theorem element_keys_witness:
  \<open>\<not> prefix ''"machine"'' (ToLower both_keys)
   \<and> json_Unmarshal both_keys
       = Inr (JObject [(''processing'', both_keys_processing), (''cache'', both_keys_cache)])
   \<and> UnmarshalJSON machine both_keys = (core7, None)
   \<and> IsProcessing (fst (UnmarshalJSON machine both_keys))\<close>
proof -
  let ?m = "[(''processing'', both_keys_processing), (''cache'', both_keys_cache)]"
  have np: \<open>\<not> prefix ''"machine"'' (ToLower both_keys)\<close>
    by (simp add: both_keys_def ToLower_def lower_char_def)
  have js: "json_Unmarshal both_keys = Inr (JObject ?m)"
    by code_simp
  have lk: "lookup ?m ''processing'' = Some both_keys_processing"
    by (simp add: lookup_def)
  have res: "unmarshal_Processing (machine\<lparr>Cache := None\<rparr>) both_keys_processing = (core7, None)"
    by code_simp
  from element_keys [OF np, of machine ?m both_keys_processing] js lk res
  have r: "UnmarshalJSON machine both_keys = (core7, None)"
    and ip: "IsProcessing (fst (UnmarshalJSON machine both_keys))"
    by auto
  from np js r ip show ?thesis by (intro conjI)
qed

text \<open>
  C3 as stated fails on an object that holds both keys: the \<open>processing\<close> branch is taken
  first and the \<open>cache\<close> member is never looked at, so the input decodes as a
  \<open>Processing\<close> with no error.
\<close>

theorem both_keys_counterexample:
  \<open>\<not> prefix ''"machine"'' (ToLower both_keys)
   \<and> (\<exists>m. json_Unmarshal both_keys = Inr (JObject m)
          \<and> lookup m ''processing'' \<noteq> None \<and> lookup m ''cache'' \<noteq> None)
   \<and> UnmarshalJSON machine both_keys
       = (\<lparr>Processing = Some \<lparr>Kind = Core, ID = 7\<rparr>, Cache = None\<rparr>, None)\<close>
proof -
  have "json_Unmarshal both_keys
       = Inr (JObject [(''processing'', both_keys_processing), (''cache'', both_keys_cache)])"
    by code_simp
  moreover have "lookup [(''processing'', both_keys_processing), (''cache'', both_keys_cache)]
      ''processing'' \<noteq> None"
    by (simp add: lookup_def)
  moreover have "lookup [(''processing'', both_keys_processing), (''cache'', both_keys_cache)]
      ''cache'' \<noteq> None"
    by (simp add: lookup_def)
  moreover have \<open>\<not> prefix ''"machine"'' (ToLower both_keys)\<close>
    by (simp add: both_keys_def ToLower_def lower_char_def)
  moreover have "UnmarshalJSON machine both_keys
       = (\<lparr>Processing = Some \<lparr>Kind = Core, ID = 7\<rparr>, Cache = None\<rparr>, None)"
    by code_simp
  ultimately show ?thesis by blast
qed

end
